theory Spec2Isabelle
  imports Main
begin

section \<open>Strings, errors and dictionaries\<close>

text \<open>
  A Python \<^verbatim>\<open>str\<close> is a sequence of Unicode code points, so a string is a list of
  integers here. \<open>u\<close> reads an ASCII literal; \<open>bs\<close> is the backslash.
\<close>

type_synonym ustring = "int list"

definition u :: "string \<Rightarrow> ustring" where
  "u s = map (\<lambda>c. of_char c) s"

definition bs :: int where
  "bs = 0x5C"

text \<open>
  The exceptions that the functions of \<^verbatim>\<open>clean.py\<close> can raise. A computation that
  may loop returns an option: \<open>None\<close> is a call that does not return, \<open>Some (Inl e)\<close> one
  that raises \<open>e\<close>, \<open>Some (Inr x)\<close> one that returns \<open>x\<close>.
\<close>

datatype error =
  IndexError | KeyError | ValueError | AttributeError | TypeError | AssertionError | RecursionError

type_synonym 'a ret = "(error + 'a) option"

definition ret_bind :: "'a ret \<Rightarrow> ('a \<Rightarrow> 'b ret) \<Rightarrow> 'b ret" where
  "ret_bind r k = Option.bind r (\<lambda>x. case x of Inl e \<Rightarrow> Some (Inl e) | Inr a \<Rightarrow> k a)"

text \<open>
  A dictionary literal is its list of items in source order; where a key is written twice
  the later item wins, as in Python.
\<close>

definition dict_get :: "('k \<times> 'v) list \<Rightarrow> 'k \<Rightarrow> 'v option" where
  "dict_get d k = map_of (rev d) k"

definition dict_has :: "('k \<times> 'v) list \<Rightarrow> 'k \<Rightarrow> bool" where
  "dict_has d k = (dict_get d k \<noteq> None)"

text \<open>\<^verbatim>\<open>"".join(d[x] for x in text)\<close>: a missing key raises KeyError.\<close>

fun join_items :: "(ustring \<times> ustring) list \<Rightarrow> ustring \<Rightarrow> error + ustring" where
  "join_items d [] = Inr []"
| "join_items d (x # xs) =
     (case dict_get d [x] of
        None \<Rightarrow> Inl KeyError
      | Some g \<Rightarrow> (case join_items d xs of Inl e \<Rightarrow> Inl e | Inr r \<Rightarrow> Inr (g @ r)))"

text \<open>\<^verbatim>\<open>"".join(d.get(x, x) for x in text)\<close> looks each character up and keeps it when absent.\<close>

definition get_default :: "(ustring \<times> ustring) list \<Rightarrow> int \<Rightarrow> ustring" where
  "get_default d x = (case dict_get d [x] of None \<Rightarrow> [x] | Some g \<Rightarrow> g)"

section \<open>What the module takes from outside\<close>

text \<open>
  \<^verbatim>\<open>clean.py\<close> imports \<^verbatim>\<open>MAGIC_FIRST\<close> and \<^verbatim>\<open>MAGIC_LAST\<close> from
  \<^verbatim>\<open>wikitextprocessor.common\<close> and relies on Python's Unicode database: the character
  tests of \<^verbatim>\<open>str\<close> (\<^verbatim>\<open>isspace\<close>, \<^verbatim>\<open>isalpha\<close>, \<^verbatim>\<open>isdigit\<close>, \<^verbatim>\<open>isalnum\<close>), the classes
  \<^verbatim>\<open>\s\<close>, \<^verbatim>\<open>\d\<close>, \<^verbatim>\<open>\w\<close> of \<^verbatim>\<open>re\<close> (the same test as \<^verbatim>\<open>isspace\<close>, the decimal
  digits, and \<^verbatim>\<open>isalnum\<close> or underscore), case-insensitive comparison under
  \<^verbatim>\<open>re.IGNORECASE\<close>, \<^verbatim>\<open>html.unescape\<close> and \<^verbatim>\<open>unicodedata.normalize("NFC", .)\<close>. None of
  them is code of this module, so the model takes them as a parameter; \<open>caseless L c x\<close>
  says that the text character \<open>x\<close> matches the pattern character \<open>c\<close> when case is ignored.
\<close>

record pylib =
  MAGIC_FIRST :: int
  MAGIC_LAST :: int
  isspace :: "int \<Rightarrow> bool"
  isalpha :: "int \<Rightarrow> bool"
  isdigit :: "int \<Rightarrow> bool"
  isdecimal :: "int \<Rightarrow> bool"
  isalnum :: "int \<Rightarrow> bool"
  caseless :: "int \<Rightarrow> int \<Rightarrow> bool"
  unescape :: "ustring \<Rightarrow> ustring"
  normalize_NFC :: "ustring \<Rightarrow> ustring"

definition strip :: "pylib \<Rightarrow> ustring \<Rightarrow> ustring" where
  "strip L s = rev (dropWhile (isspace L) (rev (dropWhile (isspace L) s)))"

definition str_isspace :: "pylib \<Rightarrow> ustring \<Rightarrow> bool" where
  "str_isspace L s = (s \<noteq> [] \<and> list_all (isspace L) s)"

definition str_isalnum :: "pylib \<Rightarrow> ustring \<Rightarrow> bool" where
  "str_isalnum L s = (s \<noteq> [] \<and> list_all (isalnum L) s)"

definition startswith :: "ustring \<Rightarrow> ustring \<Rightarrow> bool" where
  "startswith s p = (take (length p) s = p)"

definition slice :: "ustring \<Rightarrow> nat \<Rightarrow> nat \<Rightarrow> ustring" where
  "slice t i j = take (j - i) (drop i t)"

section \<open>Regular expressions\<close>

text \<open>
  The patterns of \<^verbatim>\<open>clean.py\<close> are kept as syntax trees and run by a backtracking
  matcher with the semantics of Python's \<^verbatim>\<open>re\<close>: alternatives are tried left to right,
  a greedy quantifier tries the longest repetition first and a lazy one the shortest, and
  the first complete path is the match. Every quantifier of the module's patterns
  (\<^verbatim>\<open>*\<close>, \<^verbatim>\<open>+\<close>, \<^verbatim>\<open>*?\<close>, \<^verbatim>\<open>+?\<close>) stands on a single character or class, which is what
  \<open>Star\<close>, \<open>Plus\<close>, \<open>LazyStar\<close> and \<open>LazyPlus\<close> take; \<open>Opt\<close> is \<^verbatim>\<open>(...)?\<close>, \<open>Eos\<close> is
  \<^verbatim>\<open>$\<close> and \<open>WordB\<close> is \<^verbatim>\<open>\b\<close>.
\<close>

record flags =
  ignorecase :: bool
  dotall :: bool

datatype cset = CChr int | CRng int int | CSpace | CDigit | CWord

datatype atom = Chr int | Any | In "cset list" | NotIn "cset list"

datatype re =
    One atom
  | Seq re re
  | Alt re re
  | Opt re
  | Star atom
  | Plus atom
  | LazyStar atom
  | LazyPlus atom
  | Group nat re
  | Eos
  | WordB
  | Empty

definition isword :: "pylib \<Rightarrow> int \<Rightarrow> bool" where
  "isword L c = (isalnum L c \<or> c = 0x5F)"

fun cset_has :: "pylib \<Rightarrow> cset \<Rightarrow> int \<Rightarrow> bool" where
  "cset_has L (CChr c) x = (x = c)"
| "cset_has L (CRng a b) x = (a \<le> x \<and> x \<le> b)"
| "cset_has L CSpace x = isspace L x"
| "cset_has L CDigit x = isdecimal L x"
| "cset_has L CWord x = isword L x"

fun atom_ok :: "pylib \<Rightarrow> flags \<Rightarrow> atom \<Rightarrow> int \<Rightarrow> bool" where
  "atom_ok L f (Chr c) x = (if ignorecase f then caseless L c x else x = c)"
| "atom_ok L f Any x = (dotall f \<or> x \<noteq> 0x0A)"
| "atom_ok L f (In cs) x = list_ex (\<lambda>s. cset_has L s x) cs"
| "atom_ok L f (NotIn cs) x = (\<not> list_ex (\<lambda>s. cset_has L s x) cs)"

definition run :: "pylib \<Rightarrow> flags \<Rightarrow> atom \<Rightarrow> ustring \<Rightarrow> nat \<Rightarrow> nat" where
  "run L f a t i = length (takeWhile (atom_ok L f a) (drop i t))"

text \<open>
  \<open>paths L f r t (i, c)\<close> lists, in the order in which backtracking would reach them, the
  ends of all the ways in which \<open>r\<close> matches \<open>t\<close> from position \<open>i\<close>, each with its
  captured groups (group number, start, end; the latest first).
\<close>

type_synonym caps = "(nat \<times> nat \<times> nat) list"

definition word_at :: "pylib \<Rightarrow> ustring \<Rightarrow> nat \<Rightarrow> bool" where
  "word_at L t i = (i < length t \<and> isword L (t ! i))"

fun paths :: "pylib \<Rightarrow> flags \<Rightarrow> re \<Rightarrow> ustring \<Rightarrow> nat \<times> caps \<Rightarrow> (nat \<times> caps) list" where
  "paths L f (One a) t (i, c) = (if i < length t \<and> atom_ok L f a (t ! i) then [(Suc i, c)] else [])"
| "paths L f (Seq r1 r2) t s = concat (map (paths L f r2 t) (paths L f r1 t s))"
| "paths L f (Alt r1 r2) t s = paths L f r1 t s @ paths L f r2 t s"
| "paths L f (Opt r) t s = paths L f r t s @ [s]"
| "paths L f (Star a) t (i, c) = map (\<lambda>k. (i + k, c)) (rev [0..<Suc (run L f a t i)])"
| "paths L f (Plus a) t (i, c) = map (\<lambda>k. (i + k, c)) (rev [1..<Suc (run L f a t i)])"
| "paths L f (LazyStar a) t (i, c) = map (\<lambda>k. (i + k, c)) [0..<Suc (run L f a t i)]"
| "paths L f (LazyPlus a) t (i, c) = map (\<lambda>k. (i + k, c)) [1..<Suc (run L f a t i)]"
| "paths L f (Group n r) t (i, c) = map (\<lambda>(j, c'). (j, (n, i, j) # c')) (paths L f r t (i, c))"
| "paths L f Eos t (i, c) =
     (if i = length t \<or> (Suc i = length t \<and> t ! i = 0x0A) then [(i, c)] else [])"
| "paths L f WordB t (i, c) =
     (if (0 < i \<and> word_at L t (i - 1)) \<noteq> word_at L t i then [(i, c)] else [])"
| "paths L f Empty t s = [s]"

record match =
  m_start :: nat
  m_end :: nat
  m_caps :: caps

definition match_at :: "pylib \<Rightarrow> flags \<Rightarrow> re \<Rightarrow> ustring \<Rightarrow> nat \<Rightarrow> match option" where
  "match_at L f r t i =
     (case paths L f r t (i, []) of
        [] \<Rightarrow> None
      | (j, c) # _ \<Rightarrow> Some \<lparr>m_start = i, m_end = j, m_caps = c\<rparr>)"

definition re_match :: "pylib \<Rightarrow> flags \<Rightarrow> re \<Rightarrow> ustring \<Rightarrow> match option" where
  "re_match L f r t = match_at L f r t 0"

text \<open>
  \<^verbatim>\<open>re.finditer\<close> and \<^verbatim>\<open>re.sub\<close> scan from left to right for matches that do not
  overlap. No pattern of the module matches the empty string; after an empty match the
  scan would move on by one character.
\<close>

function finditer_from :: "pylib \<Rightarrow> flags \<Rightarrow> re \<Rightarrow> ustring \<Rightarrow> nat \<Rightarrow> match list" where
  "finditer_from L f r t p =
     (if length t < p then []
      else case match_at L f r t p of
             None \<Rightarrow> finditer_from L f r t (Suc p)
           | Some m \<Rightarrow> m # finditer_from L f r t (if m_end m \<le> p then Suc p else m_end m))"
  by pat_completeness auto
termination
  by (relation "measure (\<lambda>(L, f, r, t, p). Suc (length t) - p)") auto

definition finditer :: "pylib \<Rightarrow> flags \<Rightarrow> re \<Rightarrow> ustring \<Rightarrow> match list" where
  "finditer L f r t = finditer_from L f r t 0"

definition group :: "ustring \<Rightarrow> match \<Rightarrow> nat \<Rightarrow> ustring option" where
  "group t m n =
     (if n = 0 then Some (slice t (m_start m) (m_end m))
      else map_option (\<lambda>(i, j). slice t i j) (map_of (m_caps m) n))"

definition group0 :: "ustring \<Rightarrow> match \<Rightarrow> ustring" where
  "group0 t m = slice t (m_start m) (m_end m)"

definition seqs :: "re list \<Rightarrow> re" where
  "seqs rs = foldr Seq rs Empty"

definition alts :: "re \<Rightarrow> re list \<Rightarrow> re" where
  "alts r rs = foldl Alt r rs"

definition lits :: "string \<Rightarrow> re" where
  "lits s = seqs (map (\<lambda>c. One (Chr (of_char c))) s)"

definition no_flags :: flags where
  "no_flags = \<lparr>ignorecase = False, dotall = False\<rparr>"

definition sp :: atom where "sp = In [CSpace]"

text \<open>\<^verbatim>\<open>re.sub(pattern, repl, text)\<close> with a replacement string.\<close>

fun sub_str :: "ustring \<Rightarrow> ustring \<Rightarrow> nat \<Rightarrow> match list \<Rightarrow> ustring" where
  "sub_str new text pos [] = drop pos text"
| "sub_str new text pos (m # ms) = slice text pos (m_start m) @ new @ sub_str new text (m_end m) ms"

definition re_sub :: "pylib \<Rightarrow> flags \<Rightarrow> re \<Rightarrow> ustring \<Rightarrow> ustring \<Rightarrow> ustring" where
  "re_sub L f r new text = sub_str new text 0 (finditer L f r text)"

text \<open>
  \<^verbatim>\<open>re.sub(pattern, repl, text)\<close> with a replacement function that may raise and that
  works on a state \<open>st\<close>: it is called once per match, from left to right.
\<close>

fun re_sub_m ::
  "(match \<Rightarrow> 's \<Rightarrow> (ustring \<times> 's) ret) \<Rightarrow> ustring \<Rightarrow> nat \<Rightarrow> match list \<Rightarrow> 's \<Rightarrow>
   (ustring \<times> 's) ret" where
  "re_sub_m rp text pos [] st = Some (Inr (drop pos text, st))"
| "re_sub_m rp text pos (m # ms) st =
     ret_bind (rp m st) (\<lambda>(r, st').
       ret_bind (re_sub_m rp text (m_end m) ms st') (\<lambda>(rest, st'').
         Some (Inr (slice text pos (m_start m) @ r @ rest, st''))))"

section \<open>Glyph tables\<close>

definition superscript_ht :: "(ustring \<times> ustring) list" where
  "superscript_ht = [
    (u ''1'', [0xB9]), (u ''2'', [0xB2]), (u ''3'', [0xB3]), (u ''4'', [0x2074]),
    (u ''5'', [0x2075]), (u ''6'', [0x2076]), (u ''7'', [0x2077]), (u ''8'', [0x2078]),
    (u ''9'', [0x2079]), ([0x2B], [0x207A]), ([0x2D], [0x207B]), ([0x3D], [0x207C]),
    ([0x28], [0x207D]), ([0x29], [0x207E]), (u ''A'', [0x1D2C]), (u ''B'', [0x1D2E]),
    (u ''D'', [0x1D30]), (u ''E'', [0x1D31]), (u ''G'', [0x1D33]), (u ''H'', [0x1D34]),
    (u ''I'', [0x1D35]), (u ''J'', [0x1D36]), (u ''K'', [0x1D37]), (u ''L'', [0x1D38]),
    (u ''M'', [0x1D39]), (u ''N'', [0x1D3A]), (u ''O'', [0x1D3C]), (u ''P'', [0x1D3E]),
    (u ''R'', [0x1D3F]), (u ''T'', [0x1D40]), (u ''U'', [0x1D41]), (u ''V'', [0x2C7D]),
    (u ''W'', [0x1D42]), (u ''a'', [0x1D43]), (u ''b'', [0x1D47]), (u ''c'', [0x1D9C]),
    (u ''d'', [0x1D48]), (u ''e'', [0x1D49]), (u ''f'', [0x1DA0]), (u ''g'', [0x1D4D]),
    (u ''h'', [0x2B0]), (u ''i'', [0x2071]), (u ''j'', [0x2B2]), (u ''k'', [0x1D4F]),
    (u ''l'', [0x2E1]), (u ''m'', [0x1D50]), (u ''n'', [0x207F]), (u ''o'', [0x1D52]),
    (u ''p'', [0x1D56]), (u ''r'', [0x2B3]), (u ''s'', [0x2E2]), (u ''t'', [0x1D57]),
    (u ''u'', [0x1D58]), (u ''v'', [0x1D5B]), (u ''w'', [0x2B7]), (u ''x'', [0x2E3]),
    (u ''y'', [0x2B8]), (u ''z'', [0x1DBB]), ([0x3B2], [0x1D5D]), ([0x3B3], [0x1D5E]),
    ([0x3B4], [0x1D5F]), ([0x3B8], [0x1DBF]), ([0x3B9], [0x1DA5]), ([0x3C6], [0x1D60]),
    ([0x3C7], [0x1D61]), ([0x221E], [0x20, 0x1AB2])]"

definition subscript_ht :: "(ustring \<times> ustring) list" where
  "subscript_ht = [
    (u ''0'', [0x2080]), (u ''1'', [0x2081]), (u ''2'', [0x2082]), (u ''3'', [0x2083]),
    (u ''4'', [0x2084]), (u ''5'', [0x2085]), (u ''6'', [0x2086]), (u ''7'', [0x2087]),
    (u ''8'', [0x2088]), (u ''9'', [0x2089]), ([0x2B], [0x208A]), ([0x2D], [0x208B]),
    ([0x3D], [0x208C]), ([0x28], [0x208D]), ([0x29], [0x208E]), (u ''a'', [0x2090]),
    (u ''e'', [0x2091]), (u ''h'', [0x2095]), (u ''i'', [0x1D62]), (u ''j'', [0x2C7C]),
    (u ''k'', [0x2096]), (u ''l'', [0x2097]), (u ''m'', [0x2098]), (u ''n'', [0x2099]),
    (u ''o'', [0x2092]), (u ''p'', [0x209A]), (u ''r'', [0x1D63]), (u ''s'', [0x209B]),
    (u ''t'', [0x209C]), (u ''u'', [0x1D64]), (u ''v'', [0x1D65]), (u ''x'', [0x2093]),
    ([0x259], [0x2094]), ([0x3C1], [0x1D68]), ([0x3C6], [0x1D69]), ([0x3C7], [0x1D6A])]"

definition math_map :: "(ustring \<times> ustring) list" where
  "math_map = [
    (u ''ldots'', [0x2026]), (u ''textbar'', [0x7C]), (u ''textbullet'', [0x2022]),
    (u ''textbackslash'', [0x5C]), (u ''S'', [0xA7]), (u ''textless'', [0x3C]),
    (u ''textgreater'', [0x3E]), (u ''sim'', [0x223C]), (u ''backsim'', [0x223D]),
    (u ''tiny'', []), (u ''scriptsize'', []), (u ''footnotesize'', []), (u ''small'', []),
    (u ''normalsize'', []), (u ''large'', []), (u ''ge'', [0x3E]), (u ''geq'', [0x3E]),
    (u ''le'', [0x3C]), (u ''leq'', [0x3C]), (u ''leq'', [0x2264]), (u ''geq'', [0x2265]),
    (u ''neq'', [0x2260]), (u ''doteq'', [0x2250]), (u ''approx'', [0x2248]),
    (u ''times'', [0x2A2F]), (u ''div'', [0xF7]), (u ''pm'', [0xB1]), (u ''mp'', [0x2213]),
    (u ''cdot'', [0xB7]), (u ''circ'', [0x2218]), (u ''ast'', [0x2217]),
    (u ''smallsetminus'', [0x2216]), (u ''slash'', [0x2215]), (u ''prime'', [0x2032]),
    (u ''textprime'', [0x2032]), (u ''second'', [0x2032, 0x2032]),
    (u ''third'', [0x2032, 0x2032, 0x2032]), (u ''fourth'', [0x2032, 0x2032, 0x2032, 0x2032]),
    (u ''backprime'', [0x2035]), (u ''dagger'', [0x2020]), (u ''ddagger'', [0x2021]),
    (u ''bullet'', [0x2022]), (u ''ldots'', [0x2E, 0x2E, 0x2E]), (u ''dots'', [0x2026]),
    (u ''cat'', [0x2040]), (u ''cdots'', [0x22EF]), (u ''infty'', [0x221E]), (u ''neg'', [0xAC]),
    (u ''wedge'', [0x2227]), (u ''vee'', [0x2228]), (u ''forall'', [0x2200]),
    (u ''in'', [0x2208]), (u ''ni'', [0x220B]), (u ''nni'', [0x220C]),
    (u ''rightarrow'', [0x2192]), (u ''leftarrow'', [0x2190]), (u ''leftrightarrow'', [0x2194]),
    (u ''uparrow'', [0x2191]), (u ''downarrow'', [0x2193]), (u ''updownarrow'', [0x2195]),
    (u ''nwarrow'', [0x2196]), (u ''nearrow'', [0x2197]), (u ''searrow'', [0x2198]),
    (u ''swarrow'', [0x2199]), (u ''nleftarrow'', [0x219A]), (u ''nrightarrow'', [0x219B]),
    (u ''twoheadleftarrow'', [0x219E]), (u ''twoheadrightarrow'', [0x21A0]),
    (u ''leftarrowtail'', [0x21A2]), (u ''rightarrowtail'', [0x21A3]),
    (u ''mapsfrom'', [0x21A4]), (u ''MapsUp'', [0x21A5]), (u ''mapsto'', [0x21A6]),
    (u ''MapsDown'', [0x21A7]), (u ''hookleftarrow'', [0x21A9]),
    (u ''hookrightarrow'', [0x21AA]), (u ''looparrowleft'', [0x21AB]),
    (u ''looparrowright'', [0x21AC]), (u ''leftrightsquigarrow'', [0x21AD]),
    (u ''nleftrightarrow'', [0x21AE]), (u ''lightning'', [0x21AF]), (u ''Lsh'', [0x21B0]),
    (u ''Rsh'', [0x21B1]), (u ''dlsh'', [0x21B2]), (u ''drsh'', [0x21B3]),
    (u ''curvearrowleft'', [0x21B6]), (u ''curvearrowright'', [0x21B7]),
    (u ''circlearrowleft'', [0x21BA]), (u ''circlearrowright'', [0x21BB]),
    (u ''leftharpoonup'', [0x21BC]), (u ''leftharpoondown'', [0x21BD]),
    (u ''upharpoonright'', [0x21BE]), (u ''upharpoonleft'', [0x21BF]),
    (u ''rightharpoonup'', [0x21C0]), (u ''rightharpoondown'', [0x21C1]),
    (u ''downharpoonright'', [0x21C2]), (u ''downharpoonleft'', [0x21C3]),
    (u ''rightleftarrows'', [0x21C4]), (u ''updownarrows'', [0x21C5]),
    (u ''leftrightarrows'', [0x21C6]), (u ''leftleftarrows'', [0x21C7]),
    (u ''upuparrows'', [0x21C8]), (u ''rightrightarrows'', [0x21C9]),
    (u ''downdownarrows'', [0x21CA]), (u ''leftrightharpoons'', [0x21CB]),
    (u ''rightleftharpoons'', [0x21CC]), (u ''nLeftarrow'', [0x21CD]),
    (u ''nLeftrightarrow'', [0x21CE]), (u ''nRightarrow'', [0x21CF]),
    (u ''Leftarrow'', [0x21D0]), (u ''Uparrow'', [0x21D1]), (u ''Rightarrow'', [0x21D2]),
    (u ''Downarrow'', [0x21D3]), (u ''Leftrightarrow'', [0x21D4]), (u ''Updownarrow'', [0x21D5]),
    (u ''Nwarrow'', [0x21D6]), (u ''Nearrow'', [0x21D7]), (u ''Searrow'', [0x21D8]),
    (u ''Swarrow'', [0x21D9]), (u ''Lleftarrow'', [0x21DA]), (u ''Rrightarrow'', [0x21DB]),
    (u ''leftsquigarrow'', [0x21DC]), (u ''rightsquigarrow'', [0x21DD]),
    (u ''dashleftarrow'', [0x21E0]), (u ''dashrightarrow'', [0x21E2]),
    (u ''LeftArrowBar'', [0x21E4]), (u ''RightArrowBar'', [0x21E5]),
    (u ''downuparrows'', [0x21F5]), (u ''pfun'', [0x21F8]), (u ''ffun'', [0x21FB]),
    (u ''leftarrowtriangle'', [0x21FD]), (u ''rightarrowtriangle'', [0x21FE]),
    (u ''leftrightarrowtriangle'', [0x21FF]), (u ''subset'', [0x2282]),
    (u ''subseteq'', [0x2286]), (u ''supset'', [0x2283]), (u ''supseteq'', [0x2287]),
    (u ''prec'', [0x227A]), (u ''succ'', [0x227B]), (u ''exists'', [0x2203]),
    (u ''nexists'', [0x2204]), (u ''notin'', [0x2209]), (u ''Rightarrow'', [0x21D2]),
    (u ''Leftarrow'', [0x21D0]), (u ''cup'', [0x222A]), (u ''cap'', [0x2229]),
    (u ''mid'', [0x2223]), (u ''nmid'', [0x2224]), (u ''parallel'', [0x2225]),
    (u ''nparallel'', [0x2226]), (u ''rightangle'', [0x221F]), (u ''angle'', [0x2220]),
    (u ''measuredangle'', [0x2221]), (u ''sphericalangle'', [0x2222]), (u ''propto'', [0x221D]),
    (u ''vdots'', [0x22EE]), (u ''diameter'', [0x2205]), (u ''lceil'', [0x2308]),
    (u ''rceil'', [0x2309]), (u ''lfloor'', [0x230A]), (u ''rfloor'', [0x230B]),
    (u ''varnothing'', [0x2205]), (u ''sptilde'', [0x7E]), (u ''cent'', [0xA2]),
    (u ''pounds'', [0xA3]), (u ''yen'', [0xA5]), (u ''backslash'', [0x5C]),
    (u ''spddot'', [0x308]), (u ''sphat'', [0x5E]), (u ''Micro'', [0x3BC]), (u ''eth'', [0xF0]),
    (u ''imath'', [0x131]), (u ''jmath'', [0x237]), (u ''circledR'', [0xAE]),
    (u ''therefore'', [0x2234]), (u ''because'', [0x2235]), (u ''Proportion'', [0x2237]),
    (u ''eqcolon'', [0x2239]), (u ''alpha'', [0x1D6FC]), (u ''beta'', [0x1D6FD]),
    (u ''varbeta'', [0x3B2]), (u ''gamma'', [0x1D6FE]), (u ''delta'', [0x1D6FF]),
    (u ''epsilon'', [0x1D700]), (u ''varepsilon'', [0x3B5]), (u ''backepsilon'', [0x3F6]),
    (u ''zeta'', [0x1D701]), (u ''eta'', [0x1D702]), (u ''theta'', [0x1D703]),
    (u ''vartheta'', [0x3B8]), (u ''iota'', [0x1D704]), (u ''kappa'', [0x1D705]),
    (u ''varkappa'', [0x1D718]), (u ''lambda'', [0x1D706]), (u ''mu'', [0x1D707]),
    (u ''nu'', [0x1D708]), (u ''xi'', [0x1D709]), (u ''pi'', [0x1D70B]),
    (u ''varpi'', [0x1D71B]), (u ''rho'', [0x1D70C]), (u ''varrho'', [0x1D71A]),
    (u ''sigma'', [0x1D70E]), (u ''varsigma'', [0x3C2]), (u ''tau'', [0x1D70F]),
    (u ''upsilon'', [0x1D710]), (u ''phi'', [0x1D719]), (u ''varphi'', [0x1D711]),
    (u ''chi'', [0x1D712]), (u ''psi'', [0x1D713]), (u ''omega'', [0x1D714]),
    (u ''Gamma'', [0x1D6E4]), (u ''Delta'', [0x1D6E5]), (u ''Theta'', [0x1D6E9]),
    (u ''Lambda'', [0x1D6EC]), (u ''Xi'', [0x1D6EF]), (u ''Pi'', [0x1D6F1]),
    (u ''Sigma'', [0x1D6F4]), (u ''Upsilon'', [0x1D6F6]), (u ''Phi'', [0x1D6F7]),
    (u ''Psi'', [0x1D6F9]), (u ''Omega'', [0x1D6FA]), (u ''nabla'', [0x2207]),
    (u ''partial'', [0x2202]), (u ''int'', [0x222B]), (u ''iint'', [0x222B, 0x222B]),
    (u ''iint'', [0x222B, 0x222B, 0x222B]), (u ''oint'', [0x222E]),
    (u ''oiint'', [0x222E, 0x222E]), (u ''Euler'', [0x190]), (u ''Im'', [0x2111]),
    (u ''ell'', [0x2113]), (u ''wp'', [0x2118]), (u ''Re'', [0x211C]), (u ''tcohm'', [0x2126]),
    (u ''mho'', [0x2127]), (u ''Angstroem'', [0x212B]), (u ''Finv'', [0x2132]),
    (u ''aleph'', [0x5D0]), (u ''beth'', [0x5D1]), (u ''gimel'', [0x5D2]),
    (u ''daleth'', [0x5D3]), (u ''Yup'', [0x2144]), (u ''complement'', [0x2201]),
    (u ''dotplus'', [0x2214]), (u ''hslash'', [0x210F]), (u ''invamp'', [0x214B]),
    (u ''grave'', [0x300]), (u ''acute'', [0x301]), (u ''hat'', [0x302]), (u ''tilde'', [0x303]),
    (u ''bar'', [0x304]), (u ''breve'', [0x306]), (u ''dot'', [0x307]), (u ''ddot'', [0x308]),
    (u ''dddot'', [0x20DB]), (u ''dddot'', [0x20DC]), (u ''mathring'', [0x30A]),
    (u ''check'', [0x30C]), (u ''not'', [0x338]), (u ''textstyle'', []), (u ''sqrt'', [0x221A]),
    (u ''frac'', [0x20, 0x2F, 0x20]), (u ''sum'', [0x2211]), (u ''prod'', [0x220F]),
    (u ''coprod'', [0x2210]), (u ''lvec'', [0x20D0]), (u ''vec'', [0x20D1]), (u ''left'', []),
    (u ''right'', []), (u ''bigl'', []), (u ''bigr'', []), (u ''lbrace'', [0x7B]),
    (u ''rbrace'', [0x7D]), (u ''lbrack'', [0x5B]), (u ''rbrack'', [0x5D]),
    (u ''langle'', [0x27E8]), (u ''rangle'', [0x27E9]), (u ''vert'', [0x7C]),
    (u ''Vert'', [0x2016]), (u ''CapitalDifferentialD'', [0x2145]),
    (u ''DifferentialD'', [0x2146]), (u ''ExponentialE'', [0x2147]), (u ''ComplexI'', [0x2148]),
    (u ''ComplexJ'', [0x2149]), (u ''over'', [0x2F]), (u ''style'', [])]"

definition mathcal_map :: "(ustring \<times> ustring) list" where
  "mathcal_map = [
    (u ''A'', [0x1D49C]), (u ''B'', [0x212C]), (u ''C'', [0x1D49E]), (u ''D'', [0x1D49F]),
    (u ''E'', [0x2130]), (u ''F'', [0x2131]), (u ''G'', [0x1D4A2]), (u ''H'', [0x210B]),
    (u ''I'', [0x2110]), (u ''J'', [0x1D4A5]), (u ''K'', [0x1D4A6]), (u ''L'', [0x2112]),
    (u ''M'', [0x2133]), (u ''N'', [0x1D4A9]), (u ''O'', [0x1D4AA]), (u ''P'', [0x1D4AB]),
    (u ''Q'', [0x1D4AC]), (u ''R'', [0x211B]), (u ''S'', [0x1D4AE]), (u ''T'', [0x1D4AF]),
    (u ''U'', [0x1D4B0]), (u ''V'', [0x1D4B1]), (u ''W'', [0x1D4B2]), (u ''X'', [0x1D4B3]),
    (u ''Y'', [0x1D4B4]), (u ''Z'', [0x1D4B5]), (u ''a'', [0x1D4B6]), (u ''b'', [0x1D4B7]),
    (u ''c'', [0x1D4B8]), (u ''d'', [0x1D4B9]), (u ''e'', [0x212F]), (u ''f'', [0x1D4BB]),
    (u ''g'', [0x210A]), (u ''h'', [0x1D4BD]), (u ''i'', [0x1D4BE]), (u ''j'', [0x1D4BF]),
    (u ''k'', [0x1D4C0]), (u ''l'', [0x1D4C1]), (u ''m'', [0x1D4C2]), (u ''n'', [0x1D4C3]),
    (u ''o'', [0x2134]), (u ''p'', [0x1D4C5]), (u ''q'', [0x1D4C6]), (u ''r'', [0x1D4C7]),
    (u ''s'', [0x1D4C8]), (u ''t'', [0x1D4C9]), (u ''u'', [0x1D4CA]), (u ''v'', [0x1D4CB]),
    (u ''w'', [0x1D4CC]), (u ''x'', [0x1D4CD]), (u ''y'', [0x1D4CE]), (u ''z'', [0x1D4CF])]"

definition mathfrak_map :: "(ustring \<times> ustring) list" where
  "mathfrak_map = [
    (u ''A'', [0x1D504]), (u ''B'', [0x1D505]), (u ''C'', [0x212D]), (u ''D'', [0x1D507]),
    (u ''E'', [0x1D508]), (u ''F'', [0x1D509]), (u ''G'', [0x1D50A]), (u ''H'', [0x210C]),
    (u ''J'', [0x1D50D]), (u ''K'', [0x1D50E]), (u ''L'', [0x1D50F]), (u ''M'', [0x1D510]),
    (u ''N'', [0x1D511]), (u ''O'', [0x1D512]), (u ''P'', [0x1D513]), (u ''Q'', [0x1D514]),
    (u ''S'', [0x1D516]), (u ''T'', [0x1D517]), (u ''U'', [0x1D518]), (u ''V'', [0x1D519]),
    (u ''W'', [0x1D51A]), (u ''X'', [0x1D51B]), (u ''Y'', [0x1D51C]), (u ''Z'', [0x2128])]"

definition mathbb_map :: "(ustring \<times> ustring) list" where
  "mathbb_map = [
    (u ''A'', [0x1D538]), (u ''B'', [0x1D539]), (u ''C'', [0x2102]), (u ''D'', [0x1D53B]),
    (u ''E'', [0x1D53C]), (u ''F'', [0x1D53D]), (u ''G'', [0x1D53E]), (u ''H'', [0x210D]),
    (u ''I'', [0x1D540]), (u ''J'', [0x1D541]), (u ''K'', [0x1D542]), (u ''L'', [0x1D543]),
    (u ''M'', [0x1D544]), (u ''N'', [0x2115]), (u ''O'', [0x1D546]), (u ''P'', [0x2119]),
    (u ''Q'', [0x211A]), (u ''R'', [0x211D]), (u ''S'', [0x1D54A]), (u ''T'', [0x1D54B]),
    (u ''U'', [0x1D54C]), (u ''V'', [0x1D54D]), (u ''W'', [0x1D54E]), (u ''X'', [0x1D54F]),
    (u ''Y'', [0x1D550]), (u ''Z'', [0x2124]), (u ''a'', [0x1D552]), (u ''b'', [0x1D553]),
    (u ''c'', [0x1D554]), (u ''d'', [0x1D555]), (u ''e'', [0x1D556]), (u ''f'', [0x1D557]),
    (u ''g'', [0x1D558]), (u ''h'', [0x1D559]), (u ''i'', [0x1D55A]), (u ''j'', [0x1D55B]),
    (u ''k'', [0x1D55C]), (u ''l'', [0x1D55D]), (u ''m'', [0x1D55E]), (u ''n'', [0x1D55F]),
    (u ''o'', [0x1D560]), (u ''p'', [0x1D561]), (u ''q'', [0x1D562]), (u ''r'', [0x1D563]),
    (u ''s'', [0x1D564]), (u ''t'', [0x1D565]), (u ''u'', [0x1D566]), (u ''v'', [0x1D567]),
    (u ''w'', [0x1D568]), (u ''x'', [0x1D569]), (u ''y'', [0x1D56A]), (u ''z'', [0x1D56B]),
    (u ''pi'', [0x213C]), (u ''gamma'', [0x213D]), (u ''Gamma'', [0x213E]), (u ''Pi'', [0x213F]),
    (u ''Sigma'', [0x2140])]"

section \<open>Script converters\<close>

definition to_superscript :: "ustring \<Rightarrow> error + ustring" where
  "to_superscript text =
     (if text = [] then Inr []
      else if list_all (\<lambda>x. dict_has superscript_ht [x]) text then join_items superscript_ht text
      else if length text = 1 then Inr (u ''^'' @ text)
      else Inr (u ''^('' @ text @ u '')''))"

definition to_subscript :: "ustring \<Rightarrow> error + ustring" where
  "to_subscript text =
     (if text = [] then Inr []
      else if list_all (\<lambda>x. dict_has subscript_ht [x]) text then join_items subscript_ht text
      else if length text = 1 then Inr (u ''_'' @ text)
      else Inr (u ''_('' @ text @ u '')''))"

definition to_chem :: "pylib \<Rightarrow> ustring \<Rightarrow> error + ustring" where
  "to_chem L text =
     foldr (\<lambda>x r. case (if isdigit L x then to_subscript [x] else Inr [x]) of
                    Inl e \<Rightarrow> Inl e
                  | Inr g \<Rightarrow> (case r of Inl e \<Rightarrow> Inl e | Inr rest \<Rightarrow> Inr (g @ rest)))
           text (Inr [])"

section \<open>The math expander\<close>

text \<open>
  The tokenizer of \<^verbatim>\<open>recurse\<close> (lines 709 to 715):
  \<^verbatim>\<open>\s+|\\frac\s*(A)\s*(A)|(\\(mathcal|mathfrak|mathbb|text|begin|end)\b\s*|\\sqrt\b(\[\d+\])?)?[_^]?(\\[a-zA-Z]+\s*|\\.|\w+|.)\<close>
  where \<^verbatim>\<open>A\<close> is the argument pattern \<^verbatim>\<open>\\[a-zA-Z]+|\\.|.\<close>.
\<close>

definition letters :: atom where
  "letters = In [CRng 0x61 0x7A, CRng 0x41 0x5A]"

definition arg_re :: re where
  "arg_re = alts (Seq (One (Chr bs)) (Plus letters)) [Seq (One (Chr bs)) (One Any), One Any]"

definition frac_call_re :: re where
  "frac_call_re = seqs [One (Chr bs), lits ''frac'', Star sp, Group 1 arg_re, Star sp, Group 2 arg_re]"

definition prefix_re :: re where
  "prefix_re =
     Alt (seqs [One (Chr bs),
                Group 4 (alts (lits ''mathcal'')
                  [lits ''mathfrak'', lits ''mathbb'', lits ''text'', lits ''begin'', lits ''end'']),
                WordB, Star sp])
         (seqs [One (Chr bs), lits ''sqrt'', WordB,
                Opt (Group 5 (seqs [One (Chr 0x5B), Plus (In [CDigit]), One (Chr 0x5D)]))])"

definition final_re :: re where
  "final_re =
     alts (seqs [One (Chr bs), Plus letters, Star sp])
       [Seq (One (Chr bs)) (One Any), Plus (In [CWord]), One Any]"

definition command_re :: re where
  "command_re =
     seqs [Opt (Group 3 prefix_re), Opt (One (In [CChr 0x5F, CChr 0x5E])), Group 6 final_re]"

definition token_re :: re where
  "token_re = alts (Plus sp) [frac_call_re, command_re]"

definition mathcal_fn :: "ustring \<Rightarrow> error + ustring" where
  "mathcal_fn text = Inr (concat (map (get_default mathcal_map) text))"

definition mathfrak_fn :: "ustring \<Rightarrow> error + ustring" where
  "mathfrak_fn text = Inr (concat (map (get_default mathfrak_map) text))"

definition mathbb_fn :: "ustring \<Rightarrow> error + ustring" where
  "mathbb_fn text = Inr (concat (map (get_default mathbb_map) text))"

datatype log_entry =
    Log_to_math ustring
  | Log_frac ustring
  | Log_MATH_FRAC_ERROR
  | Log_BEFORE_ITER ustring
  | Log_math_text_final ustring

record math_state =
  magic_vec :: "ustring list"
  stdout :: "log_entry list"

definition print :: "log_entry \<Rightarrow> math_state \<Rightarrow> math_state" where
  "print e st = st\<lparr>stdout := stdout st @ [e]\<rparr>"

definition is_magic :: "pylib \<Rightarrow> int \<Rightarrow> bool" where
  "is_magic L c = (MAGIC_FIRST L \<le> c \<and> c \<le> MAGIC_LAST L)"

fun expand_pass :: "pylib \<Rightarrow> ustring list \<Rightarrow> ustring \<Rightarrow> error + ustring" where
  "expand_pass L mv [] = Inr []"
| "expand_pass L mv (c # cs) =
     (if is_magic L c then
        (if nat (c - MAGIC_FIRST L) < length mv then
           (case expand_pass L mv cs of
              Inl e \<Rightarrow> Inl e
            | Inr r \<Rightarrow> Inr (mv ! nat (c - MAGIC_FIRST L) @ r))
         else Inl IndexError)
      else (case expand_pass L mv cs of Inl e \<Rightarrow> Inl e | Inr r \<Rightarrow> Inr (c # r)))"

partial_function (option) expand_while :: "pylib \<Rightarrow> ustring list \<Rightarrow> ustring \<Rightarrow> ustring ret" where
  "expand_while L mv text =
     (case expand_pass L mv text of
        Inl e \<Rightarrow> Some (Inl e)
      | Inr text' \<Rightarrow> if text' = text then Some (Inr text') else expand_while L mv text')"

declare expand_while.simps [code]

definition expand :: "pylib \<Rightarrow> ustring list \<Rightarrow> ustring \<Rightarrow> ustring ret" where
  "expand L mv text = ret_bind (expand_while L mv text) (\<lambda>t. Some (Inr (strip L t)))"

definition brace_re :: "int \<Rightarrow> int \<Rightarrow> re" where
  "brace_re left right =
     seqs [One (Chr left), Group 1 (Plus (NotIn [CChr left, CChr right])), One (Chr right)]"

definition repl ::
  "pylib \<Rightarrow> (ustring \<Rightarrow> math_state \<Rightarrow> (ustring \<times> math_state) ret) \<Rightarrow> ustring \<Rightarrow> match \<Rightarrow>
   math_state \<Rightarrow> (ustring \<times> math_state) ret" where
  "repl L fn text m st =
     (let magic = MAGIC_FIRST L + int (length (magic_vec st)) in
      if magic < 0 \<or> 0x10FFFF < magic then Some (Inl ValueError)
      else case group text m 1 of
             None \<Rightarrow> Some (Inl TypeError)
           | Some g \<Rightarrow>
               ret_bind (fn g st)
                 (\<lambda>(t, st'). Some (Inr ([magic], st'\<lparr>magic_vec := magic_vec st' @ [t]\<rparr>))))"

partial_function (option) math_magic ::
  "pylib \<Rightarrow> ustring \<Rightarrow> int \<Rightarrow> int \<Rightarrow> (ustring \<Rightarrow> math_state \<Rightarrow> (ustring \<times> math_state) ret) \<Rightarrow>
   math_state \<Rightarrow> (ustring \<times> math_state) ret" where
  "math_magic L text left right fn st =
     Option.bind
       (re_sub_m (repl L fn text) text 0 (finditer L no_flags (brace_re left right) text) st)
       (\<lambda>r. case r of
               Inl e \<Rightarrow> Some (Inl e)
             | Inr (text', st') \<Rightarrow>
                 if text' = text then Some (Inr (text', st'))
                 else math_magic L text' left right fn st')"

declare math_magic.simps [code]

partial_function (option) recurse_while ::
  "pylib \<Rightarrow> (ustring \<Rightarrow> math_state \<Rightarrow> (ustring \<times> math_state) ret) \<Rightarrow> ustring \<Rightarrow>
   math_state \<Rightarrow> (ustring \<times> math_state) ret" where
  "recurse_while L fn text st =
     Option.bind (math_magic L text 0x7B 0x7D fn st)
       (\<lambda>r. case r of
               Inl e \<Rightarrow> Some (Inl e)
             | Inr (text', st') \<Rightarrow>
                 if text' = text then Some (Inr (text', st'))
                 else recurse_while L fn text' st')"

declare recurse_while.simps [code]

definition needs_space :: "pylib \<Rightarrow> ustring list \<Rightarrow> ustring \<Rightarrow> error + bool" where
  "needs_space L parts v =
     (if parts = [] then Inr False
      else if last parts = [] then Inl IndexError
      else Inr (((isalpha L (last (last parts)) \<and> v \<noteq> [] \<and> isalpha L (hd v)) \<or>
                 (isdigit L (last (last parts)) \<and> v \<noteq> [] \<and> isdigit L (hd v))) \<and>
                1 < length (last parts) \<and> 1 < length v))"

definition expand_group_tail ::
  "pylib \<Rightarrow> ustring list \<Rightarrow> (ustring \<Rightarrow> error + ustring) option \<Rightarrow> ustring \<Rightarrow> math_state \<Rightarrow>
   (ustring \<times> math_state) ret" where
  "expand_group_tail L parts fn v st =
     (let v1 =
        (if startswith v [bs] then
           (case dict_get math_map (strip L (drop 1 v)) of
              None \<Rightarrow>
                if str_isalnum L (strip L (drop 1 v)) then u '' '' @ strip L (drop 1 v) @ u '' ''
                else strip L (drop 1 v)
            | Some mapped \<Rightarrow> mapped)
         else if str_isspace L v \<or> v = u ''&'' then []
         else v)
      in ret_bind
           (case fn of
              None \<Rightarrow> Some (Inr v1)
            | Some g \<Rightarrow> ret_bind (expand L (magic_vec st) v1) (\<lambda>x. Some (g x)))
           (\<lambda>v2. ret_bind (Some (needs_space L parts v2))
              (\<lambda>sp. ret_bind (expand L (magic_vec st) (if sp then u '' '' @ v2 else v2))
                 (\<lambda>v3. Some (Inr (v3, st))))))"

text \<open>
  The patterns of \<^verbatim>\<open>expand_group\<close>: \<^verbatim>\<open>\\frac\s*(A)\s*(A)$\<close> (lines 660 and 661),
  \<^verbatim>\<open>\\sqrt\[\<close> (line 646), and \<^verbatim>\<open>\\name($|[0-9]|\b)\<close> for \<^verbatim>\<open>sqrt\<close> and \<^verbatim>\<open>frac\<close>
  (lines 656 and 658).
\<close>

definition frac_re :: re where
  "frac_re = seqs [One (Chr bs), lits ''frac'', Star sp, Group 1 arg_re, Star sp, Group 2 arg_re, Eos]"

definition sqrt_index_re :: re where
  "sqrt_index_re = seqs [One (Chr bs), lits ''sqrt'', One (Chr 0x5B)]"

definition cmd_guard :: "string \<Rightarrow> re" where
  "cmd_guard name = seqs [One (Chr bs), lits name, alts Eos [One (In [CRng 0x30 0x39]), WordB]]"

definition paren :: "ustring \<Rightarrow> ustring" where
  "paren a = (if 1 < length a then u ''('' @ a @ u '')'' else a)"

definition matches :: "pylib \<Rightarrow> re \<Rightarrow> ustring \<Rightarrow> bool" where
  "matches L r v = (re_match L no_flags r v \<noteq> None)"

partial_function (option) expand_group ::
  "pylib \<Rightarrow> ustring list \<Rightarrow> ustring \<Rightarrow> math_state \<Rightarrow> (ustring \<times> math_state) ret" where
  "expand_group L parts v st =
     (if matches L (seqs [One (Chr bs), lits ''mathcal'', WordB]) v then
        expand_group_tail L parts (Some mathcal_fn) (strip L (drop 8 v)) st
      else if matches L (seqs [One (Chr bs), lits ''mathfrak'', WordB]) v then
        expand_group_tail L parts (Some mathfrak_fn) (strip L (drop 9 v)) st
      else if matches L (seqs [One (Chr bs), lits ''mathbb'', WordB]) v then
        expand_group_tail L parts (Some mathbb_fn) (drop 7 v) st
      else if matches L (seqs [One (Chr bs), Group 1 (Alt (lits ''begin'') (lits ''end'')), WordB]) v then
        expand_group_tail L parts None [] st
      else if matches L (seqs [One (Chr bs), lits ''text'', WordB]) v then
        expand_group_tail L parts None (drop 5 v) st
      else if matches L sqrt_index_re v then
        (if strip L (drop 6 (butlast v)) = u ''2'' then expand_group_tail L parts None [0x221A] st
         else if strip L (drop 6 (butlast v)) = u ''3'' then Some (Inl AttributeError)
         else if strip L (drop 6 (butlast v)) = u ''4'' then expand_group_tail L parts None [0x221C] st
         else (case to_superscript (strip L (drop 6 (butlast v))) of
                 Inl e \<Rightarrow> Some (Inl e)
               | Inr s \<Rightarrow> expand_group_tail L parts None (s @ [0x221A]) st))
      else if matches L (cmd_guard ''sqrt'') v then
        expand_group_tail L parts None [0x221A] st
      else if matches L (cmd_guard ''frac'') v then
        (case re_match L no_flags frac_re v of
           None \<Rightarrow> Some (Inr (v, print Log_MATH_FRAC_ERROR (print (Log_frac v) st)))
         | Some m \<Rightarrow>
             (case (group v m 1, group v m 2) of
                (Some a, Some b) \<Rightarrow>
                  Option.bind (expand_group L parts (strip L a) (print (Log_frac v) st))
                    (\<lambda>ra. case ra of
                       Inl e \<Rightarrow> Some (Inl e)
                     | Inr (a', st') \<Rightarrow>
                         Option.bind (expand_group L parts (strip L b) st')
                           (\<lambda>rb. case rb of
                              Inl e \<Rightarrow> Some (Inl e)
                            | Inr (b', st'') \<Rightarrow>
                                expand_group_tail L parts None (paren a' @ u ''/'' @ paren b') st''))
              | _ \<Rightarrow> Some (Inl AttributeError)))
      else if startswith v (u ''_'') then
        expand_group_tail L parts (Some to_subscript) (drop 1 v) st
      else if startswith v (u ''^'') then
        expand_group_tail L parts (Some to_superscript) (drop 1 v) st
      else expand_group_tail L parts None v st)"

declare expand_group.simps [code]

fun for_tokens ::
  "pylib \<Rightarrow> ustring \<Rightarrow> match list \<Rightarrow> ustring list \<Rightarrow> math_state \<Rightarrow>
   (ustring list \<times> math_state) ret" where
  "for_tokens L text [] parts st = Some (Inr (parts, st))"
| "for_tokens L text (m # ms) parts st =
     ret_bind (expand_group L parts (group0 text m) st)
       (\<lambda>(v, st'). for_tokens L text ms (if v \<noteq> [] then parts @ [v] else parts) st')"

fun recurse :: "pylib \<Rightarrow> nat \<Rightarrow> ustring \<Rightarrow> math_state \<Rightarrow> (ustring \<times> math_state) ret" where
  "recurse L 0 text st = None"
| "recurse L (Suc n) text st =
     ret_bind (recurse_while L (\<lambda>t s. recurse L n t s) text st)
       (\<lambda>(text', st').
          ret_bind
            (for_tokens L text' (finditer L no_flags token_re text') []
               (print (Log_BEFORE_ITER text') st'))
            (\<lambda>(parts, st''). Some (Inr (concat parts, st''))))"

definition to_math_run :: "pylib \<Rightarrow> ustring \<Rightarrow> (ustring \<times> log_entry list) ret" where
  "to_math_run L text =
     ret_bind
       (recurse L (Suc (length text)) text
          (print (Log_to_math text) \<lparr>magic_vec = [], stdout = []\<rparr>))
       (\<lambda>(r, st). Some (Inr (r, stdout (print (Log_math_text_final r) st))))"

definition to_math :: "pylib \<Rightarrow> ustring \<Rightarrow> ustring ret" where
  "to_math L text = ret_bind (to_math_run L text) (\<lambda>(r, out). Some (Inr r))"

section \<open>The value cleaner\<close>

text \<open>
  The patterns of \<^verbatim>\<open>clean_value\<close>, in the order of lines 764 to 812. \<^verbatim>\<open>(?s)\<close> makes
  the dot match a newline, \<^verbatim>\<open>(?i)\<close> ignores case.
\<close>

definition flags_s :: flags where
  "flags_s = \<lparr>ignorecase = False, dotall = True\<rparr>"

definition flags_si :: flags where
  "flags_si = \<lparr>ignorecase = True, dotall = True\<rparr>"

definition lit :: "string \<Rightarrow> re" where
  "lit s = One (Chr (of_char (hd s)))"

definition chr_of :: "string \<Rightarrow> int" where
  "chr_of s = of_char (hd s)"

text \<open>\<^verbatim>\<open><\s*name\b[^>]*>\<close> and \<^verbatim>\<open><\s*/\s*name\s*>\<close>.\<close>

definition open_tag :: "string \<Rightarrow> re" where
  "open_tag name = seqs [lit ''<'', Star sp, lits name, WordB, Star (NotIn [CChr (chr_of ''>'')]), lit ''>'']"

definition close_tag :: "string \<Rightarrow> re" where
  "close_tag name = seqs [lit ''<'', Star sp, lit ''/'', Star sp, lits name, Star sp, lit ''>'']"

text \<open>\<^verbatim>\<open>\{\{[^}]+\}\}\<close>\<close>

definition template_re :: re where
  "template_re = seqs [lits ''{{'', Plus (NotIn [CChr (chr_of ''}'')]), lits ''}}'']"

text \<open>\<^verbatim>\<open>(?s)\{\|.*?\|\}\<close>\<close>

definition table_re :: re where
  "table_re = seqs [lits ''{|'', LazyStar Any, lits ''|}'']"

text \<open>\<^verbatim>\<open>(?is)<\s*ref\s*[^>]*?>\s*.*?<\s*/\s*ref\s*>\n*\<close>\<close>

definition ref_re :: re where
  "ref_re = seqs [lit ''<'', Star sp, lits ''ref'', Star sp, LazyStar (NotIn [CChr (chr_of ''>'')]),
     lit ''>'', Star sp, LazyStar Any, close_tag ''ref'', Star (Chr 0x0A)]"

text \<open>\<^verbatim>\<open>(?si)<\s*br\s*/?>\n*\<close>\<close>

definition br_re :: re where
  "br_re = seqs [lit ''<'', Star sp, lits ''br'', Star sp, Opt (lit ''/''), lit ''>'', Star (Chr 0x0A)]"

text \<open>\<^verbatim>\<open>(?si)<\s*/?\s*(div|tr|li|table)\b[^>]*>\<close> and the same for \<^verbatim>\<open>(td|th)\<close>.\<close>

definition block_re :: re where
  "block_re = seqs [lit ''<'', Star sp, Opt (lit ''/''), Star sp,
     Group 1 (alts (lits ''div'') [lits ''tr'', lits ''li'', lits ''table'']), WordB,
     Star (NotIn [CChr (chr_of ''>'')]), lit ''>'']"

definition cell_re :: re where
  "cell_re = seqs [lit ''<'', Star sp, Opt (lit ''/''), Star sp,
     Group 1 (alts (lits ''td'') [lits ''th'']), WordB,
     Star (NotIn [CChr (chr_of ''>'')]), lit ''>'']"

text \<open>
  \<^verbatim>\<open>(?si)<\s*sup\b[^>]*>\s*<\s*/\s*sup\s*>\<close> for an empty pair, where the opening tag is
  \<open>opening\<close> and the closing one \<open>closing\<close>, and
  \<^verbatim>\<open>(?si)<\s*sup\b[^>]*>(.*?)<\s*/\s*sup\s*>\<close> for a span.
\<close>

definition empty_pair_re :: "string \<Rightarrow> string \<Rightarrow> re" where
  "empty_pair_re opening closing = seqs [open_tag opening, Star sp, close_tag closing]"

definition span_re :: "string \<Rightarrow> re" where
  "span_re name = seqs [open_tag name, Group 1 (LazyStar Any), close_tag name]"

text \<open>\<^verbatim>\<open>(?s)<\s*[^/>][^>]*>\<close> and \<^verbatim>\<open>(?s)<\s*/\s*[^>]+>\<close>\<close>

definition any_open_re :: re where
  "any_open_re = seqs [lit ''<'', Star sp, One (NotIn [CChr (chr_of ''/''), CChr (chr_of ''>'')]),
     Star (NotIn [CChr (chr_of ''>'')]), lit ''>'']"

definition any_close_re :: re where
  "any_close_re = seqs [lit ''<'', Star sp, lit ''/'', Star sp, Plus (NotIn [CChr (chr_of ''>'')]), lit ''>'']"

text \<open>\<^verbatim>\<open>(?si)\[\[\s*Category\s*:\s*([^]]+?)\s*\]\]\<close>\<close>

definition category_re :: re where
  "category_re = seqs [lits ''[['', Star sp, lits ''Category'', Star sp, lit '':'', Star sp,
     Group 1 (LazyPlus (NotIn [CChr (chr_of '']'')])), Star sp, lits '']]'']"

text \<open>\<^verbatim>\<open>(?s)\[\[\s*([^]|]+?)\s*\|\s*([^]|]+?)(\s*\|\s*([^]|]+?))?\s*\]\]\<close>\<close>

definition not_bar :: atom where
  "not_bar = NotIn [CChr (chr_of '']''), CChr (chr_of ''|'')]"

definition link_bars_re :: re where
  "link_bars_re = seqs [lits ''[['', Star sp, Group 1 (LazyPlus not_bar), Star sp, lit ''|'', Star sp,
     Group 2 (LazyPlus not_bar),
     Opt (Group 3 (seqs [Star sp, lit ''|'', Star sp, Group 4 (LazyPlus not_bar)])),
     Star sp, lits '']]'']"

text \<open>\<^verbatim>\<open>(?s)\[\[\s*(([a-zA-z0-9]+)\s*:)?\s*([^][]+?)\]\]\<close>\<close>

definition link_re :: re where
  "link_re = seqs [lits ''[['', Star sp,
     Opt (Group 1 (seqs [Group 2 (Plus (In [CRng 0x61 0x7A, CRng 0x41 0x7A, CRng 0x30 0x39])),
                         Star sp, lit '':''])),
     Star sp, Group 3 (LazyPlus (NotIn [CChr (chr_of '']''), CChr (chr_of ''['')])), lits '']]'']"

text \<open>\<^verbatim>\<open>(?s)\[\[\s*:?([^]|]+?)\s*\]\]\<close>\<close>

definition simple_link_re :: re where
  "simple_link_re = seqs [lits ''[['', Star sp, Opt (lit '':''), Group 1 (LazyPlus not_bar), Star sp,
     lits '']]'']"

text \<open>\<^verbatim>\<open>\[(https?:)//[^]\s]+\s+([^]]+?)\s*\]\<close>\<close>

definition url_re :: re where
  "url_re = seqs [lit ''['', Group 1 (seqs [lits ''http'', Opt (lit ''s''), lit '':'']), lits ''//'',
     Plus (NotIn [CChr (chr_of '']''), CSpace]), Plus sp,
     Group 2 (LazyPlus (NotIn [CChr (chr_of '']'')])), Star sp, lit '']'']"

text \<open>\<^verbatim>\<open>\[//[^]\s]+\s+edit\s*\]\<close>\<close>

definition edit_re :: re where
  "edit_re = seqs [lits ''[//'', Plus (NotIn [CChr (chr_of '']''), CSpace]), Plus sp, lits ''edit'',
     Star sp, lit '']'']"

text \<open>\<^verbatim>\<open>''+\<close> (two or more apostrophes), \<^verbatim>\<open>\xa0\<close>, \<^verbatim>\<open>[ \t\r]+\<close> and \<^verbatim>\<open> *\n+\<close>\<close>

definition quotes_re :: re where
  "quotes_re = Seq (One (Chr 0x27)) (Plus (Chr 0x27))"

definition nbsp_re :: re where
  "nbsp_re = One (Chr 0xA0)"

definition blanks_re :: re where
  "blanks_re = Plus (In [CChr 0x20, CChr 0x09, CChr 0x0D])"

definition newlines_re :: re where
  "newlines_re = Seq (Star (Chr 0x20)) (Plus (Chr 0x0A))"

text \<open>\<^verbatim>\<open>(?si)(File|Image)\s*:\<close>, matched at the start of a link target.\<close>

definition file_re :: re where
  "file_re = seqs [Group 1 (Alt (lits ''File'') (lits ''Image'')), Star sp, lit '':'']"

text \<open>
  \<^verbatim>\<open>re.sub\<close> with a replacement function that may raise.
\<close>

fun sub_fn :: "(match \<Rightarrow> ustring ret) \<Rightarrow> ustring \<Rightarrow> nat \<Rightarrow> match list \<Rightarrow> ustring ret" where
  "sub_fn rp text pos [] = Some (Inr (drop pos text))"
| "sub_fn rp text pos (m # ms) =
     ret_bind (rp m) (\<lambda>r.
       ret_bind (sub_fn rp text (m_end m) ms) (\<lambda>rest.
         Some (Inr (slice text pos (m_start m) @ r @ rest))))"

definition re_sub_fn :: "pylib \<Rightarrow> flags \<Rightarrow> re \<Rightarrow> (ustring \<Rightarrow> match \<Rightarrow> ustring ret) \<Rightarrow> ustring \<Rightarrow> ustring ret" where
  "re_sub_fn L f r rp text = sub_fn (rp text) text 0 (finditer L f r text)"

text \<open>
  The argument \<open>config\<close> is any Python object; \<^verbatim>\<open>clean_value\<close> asserts that it is a
  \<^verbatim>\<open>WiktionaryConfig\<close> and uses it for nothing else.
\<close>

datatype pyobject = WiktionaryConfig | OtherObject

definition lower_ascii :: "ustring \<Rightarrow> ustring" where
  "lower_ascii s = map (\<lambda>c. if 0x41 \<le> c \<and> c \<le> 0x5A then c + 0x20 else c) s"

text \<open>
  The replacement functions of lines 736 to 762. \<open>rec\<close> is the recursive call
  \<^verbatim>\<open>clean_value(config, ., no_strip=.)\<close>. A group that did not take part in the match is
  \<^verbatim>\<open>None\<close> in Python, on which \<^verbatim>\<open>clean_value\<close> fails its assertion.
\<close>

definition repl_1 :: "(ustring \<Rightarrow> bool \<Rightarrow> ustring ret) \<Rightarrow> ustring \<Rightarrow> match \<Rightarrow> ustring ret" where
  "repl_1 rec text m =
     (case group text m 1 of None \<Rightarrow> Some (Inl AssertionError) | Some g \<Rightarrow> rec g True)"

definition repl_2 :: "(ustring \<Rightarrow> bool \<Rightarrow> ustring ret) \<Rightarrow> ustring \<Rightarrow> match \<Rightarrow> ustring ret" where
  "repl_2 rec text m =
     (case group text m 2 of None \<Rightarrow> Some (Inl AssertionError) | Some g \<Rightarrow> rec g True)"

definition repl_link :: "(ustring \<Rightarrow> bool \<Rightarrow> ustring ret) \<Rightarrow> ustring \<Rightarrow> match \<Rightarrow> ustring ret" where
  "repl_link rec text m =
     (if (case group text m 2 of
            None \<Rightarrow> False
          | Some g \<Rightarrow> g \<noteq> [] \<and> (lower_ascii g = u ''file'' \<or> lower_ascii g = u ''image''))
      then Some (Inr [])
      else case group text m 3 of
             None \<Rightarrow> Some (Inl AttributeError)
           | Some g \<Rightarrow> rec (takeWhile (\<lambda>c. c \<noteq> chr_of ''|'') g) True)"

definition repl_link_bars ::
  "pylib \<Rightarrow> (ustring \<Rightarrow> bool \<Rightarrow> ustring ret) \<Rightarrow> ustring \<Rightarrow> match \<Rightarrow> ustring ret" where
  "repl_link_bars L rec text m =
     (case group text m 1 of
        None \<Rightarrow> Some (Inl TypeError)
      | Some lnk \<Rightarrow>
          if re_match L flags_si file_re lnk \<noteq> None then Some (Inr [])
          else rec (case group text m 4 of
                      Some g4 \<Rightarrow> if g4 \<noteq> [] then g4
                                 else (case group text m 2 of Some g2 \<Rightarrow> g2 | None \<Rightarrow> [])
                    | None \<Rightarrow> (case group text m 2 of Some g2 \<Rightarrow> g2 | None \<Rightarrow> [])) True)"

definition repl_1_sup :: "(ustring \<Rightarrow> bool \<Rightarrow> ustring ret) \<Rightarrow> ustring \<Rightarrow> match \<Rightarrow> ustring ret" where
  "repl_1_sup rec text m =
     (case group text m 1 of
        None \<Rightarrow> Some (Inl AssertionError)
      | Some g \<Rightarrow> ret_bind (rec g False) (\<lambda>x. Some (to_superscript x)))"

definition repl_1_sub :: "(ustring \<Rightarrow> bool \<Rightarrow> ustring ret) \<Rightarrow> ustring \<Rightarrow> match \<Rightarrow> ustring ret" where
  "repl_1_sub rec text m =
     (case group text m 1 of
        None \<Rightarrow> Some (Inl AssertionError)
      | Some g \<Rightarrow> ret_bind (rec g False) (\<lambda>x. Some (to_subscript x)))"

definition repl_1_chem ::
  "pylib \<Rightarrow> (ustring \<Rightarrow> bool \<Rightarrow> ustring ret) \<Rightarrow> ustring \<Rightarrow> match \<Rightarrow> ustring ret" where
  "repl_1_chem L rec text m =
     (case group text m 1 of
        None \<Rightarrow> Some (Inl AssertionError)
      | Some g \<Rightarrow> ret_bind (rec g False) (\<lambda>x. Some (to_chem L x)))"

definition repl_1_math :: "pylib \<Rightarrow> ustring \<Rightarrow> match \<Rightarrow> ustring ret" where
  "repl_1_math L text m =
     (case group text m 1 of None \<Rightarrow> Some (Inl TypeError) | Some g \<Rightarrow> to_math L g)"

text \<open>
  The body of \<^verbatim>\<open>clean_value\<close> (lines 764 to 830) is a pipeline of substitutions; each
  step works on the result of the step before.
\<close>

definition clean_tags :: "pylib \<Rightarrow> (ustring \<Rightarrow> bool \<Rightarrow> ustring ret) \<Rightarrow> ustring \<Rightarrow> ustring ret" where
  "clean_tags L rec title =
     ret_bind (Some (Inr
        (re_sub L flags_si (empty_pair_re ''sup'' ''sup'') []
        (re_sub L flags_si cell_re (u '' '')
        (re_sub L flags_si block_re [0x0A]
        (re_sub L flags_si br_re (u '', '')
        (re_sub L flags_si ref_re []
        (re_sub L flags_s table_re [0x0A]
        (re_sub L no_flags template_re [] title))))))))) (\<lambda>title.
     ret_bind (re_sub_fn L flags_si (span_re ''sup'') (repl_1_sup rec) title) (\<lambda>title.
     ret_bind (re_sub_fn L flags_si (span_re ''sub'') (repl_1_sub rec)
                 (re_sub L flags_si (empty_pair_re ''sub'' ''sup'') [] title)) (\<lambda>title.
     ret_bind (re_sub_fn L flags_si (span_re ''chem'') (repl_1_chem L rec) title) (\<lambda>title.
     ret_bind (re_sub_fn L flags_si (span_re ''math'') (repl_1_math L) title) (\<lambda>title.
     Some (Inr (re_sub L flags_s any_close_re [] (re_sub L flags_s any_open_re [] title))))))))"

definition clean_links :: "pylib \<Rightarrow> (ustring \<Rightarrow> bool \<Rightarrow> ustring ret) \<Rightarrow> ustring \<Rightarrow> ustring ret" where
  "clean_links L rec title =
     ret_bind (re_sub_fn L flags_s link_bars_re (repl_link_bars L rec)
                 (re_sub L flags_si category_re [] title)) (\<lambda>title.
     ret_bind (re_sub_fn L flags_s link_re (repl_link rec) title) (\<lambda>title.
     ret_bind (re_sub_fn L flags_s simple_link_re (repl_1 rec) title) (\<lambda>title.
     ret_bind (re_sub_fn L no_flags url_re (repl_2 rec) title) (\<lambda>title.
     Some (Inr (re_sub L no_flags edit_re [] title))))))"

definition clean_text :: "pylib \<Rightarrow> ustring \<Rightarrow> bool \<Rightarrow> ustring" where
  "clean_text L title no_strip =
     (let title = re_sub L no_flags quotes_re [] title;
          title = unescape L title;
          title = re_sub L no_flags nbsp_re (u '' '') title;
          title = re_sub L no_flags blanks_re (u '' '') title;
          title = re_sub L no_flags newlines_re [0x0A] title;
          title = (if \<not> no_strip then strip L title else title)
      in normalize_NFC L title)"

text \<open>
  \<open>clean_value L d config title no_strip\<close>: \<open>d\<close> is the number of nested calls of
  \<^verbatim>\<open>clean_value\<close> that Python's recursion limit still allows; when none is left the
  call raises RecursionError.
\<close>

fun clean_value :: "pylib \<Rightarrow> nat \<Rightarrow> pyobject \<Rightarrow> ustring \<Rightarrow> bool \<Rightarrow> ustring ret" where
  "clean_value L 0 config title no_strip = Some (Inl RecursionError)"
| "clean_value L (Suc d) config title no_strip =
     (if config \<noteq> WiktionaryConfig then Some (Inl AssertionError)
      else ret_bind (clean_tags L (\<lambda>t ns. clean_value L d config t ns) title) (\<lambda>title.
           ret_bind (clean_links L (\<lambda>t ns. clean_value L d config t ns) title) (\<lambda>title.
           Some (Inr (clean_text L title no_strip)))))"

section \<open>The library instance used to evaluate examples\<close>

text \<open>
  \<open>cpython\<close> instantiates the parameter for the evaluation of concrete inputs.
  \<^verbatim>\<open>MAGIC_FIRST\<close> and \<^verbatim>\<open>MAGIC_LAST\<close> are the values of \<^verbatim>\<open>wikitextprocessor.common\<close>.
  \<open>isspace\<close> lists every code point for which CPython's \<^verbatim>\<open>str.isspace\<close> holds.
  The alphabetic and numeric tests are those of CPython on U+0000 to U+00FF and hold for
  no code point beyond. Case-insensitive comparison is exact for an ASCII pattern
  character (\<^verbatim>\<open>i\<close> also matches U+0130 and U+0131, \<^verbatim>\<open>s\<close> U+017F, \<^verbatim>\<open>k\<close> U+212A).
  \<^verbatim>\<open>html.unescape\<close> returns a string without \<^verbatim>\<open>&\<close> unchanged; the instance covers these
  strings only. NFC here replaces the three letterlike symbols that have a singleton
  canonical decomposition (U+2126, U+212A, U+212B); it is \<^verbatim>\<open>unicodedata.normalize\<close> on
  strings of ASCII characters, superscript and subscript glyphs and letterlike symbols.
\<close>

definition in_ranges :: "(int \<times> int) list \<Rightarrow> int \<Rightarrow> bool" where
  "in_ranges rs c = list_ex (\<lambda>(a, b). a \<le> c \<and> c \<le> b) rs"

definition fold_case :: "int \<Rightarrow> int" where
  "fold_case x =
     (if 0x41 \<le> x \<and> x \<le> 0x5A then x + 0x20
      else if x = 0x130 \<or> x = 0x131 then 0x69
      else if x = 0x17F then 0x73
      else if x = 0x212A then 0x6B
      else x)"

definition nfc_singleton :: "int \<Rightarrow> int" where
  "nfc_singleton x =
     (if x = 0x2126 then 0x3A9 else if x = 0x212A then 0x4B else if x = 0x212B then 0xC5 else x)"

definition cpython :: pylib where
  "cpython = \<lparr>
     MAGIC_FIRST = 0x10203E,
     MAGIC_LAST = 0x10FFF0,
     isspace = in_ranges [(0x9, 0xD), (0x1C, 0x20), (0x85, 0x85), (0xA0, 0xA0), (0x1680, 0x1680),
       (0x2000, 0x200A), (0x2028, 0x2029), (0x202F, 0x202F), (0x205F, 0x205F), (0x3000, 0x3000)],
     isalpha = in_ranges [(0x41, 0x5A), (0x61, 0x7A), (0xAA, 0xAA), (0xB5, 0xB5), (0xBA, 0xBA),
       (0xC0, 0xD6), (0xD8, 0xF6), (0xF8, 0xFF)],
     isdigit = in_ranges [(0x30, 0x39), (0xB2, 0xB3), (0xB9, 0xB9)],
     isdecimal = in_ranges [(0x30, 0x39)],
     isalnum = in_ranges [(0x30, 0x39), (0x41, 0x5A), (0x61, 0x7A), (0xAA, 0xAA), (0xB2, 0xB3),
       (0xB5, 0xB5), (0xB9, 0xBA), (0xBC, 0xBE), (0xC0, 0xD6), (0xD8, 0xF6), (0xF8, 0xFF)],
     caseless = (\<lambda>c x. fold_case x = fold_case c),
     unescape = (\<lambda>s. s),
     normalize_NFC = map nfc_singleton\<rparr>"

section \<open>Predicates of the proofs\<close>

text \<open>
  Nothing below is part of the program: these are the predicates in which the properties
  of the math expander are stated and proved.

  A string is \<open>magic_free\<close> when it holds no code point of the placeholder range
  \<^verbatim>\<open>MAGIC_FIRST\<close> to \<^verbatim>\<open>MAGIC_LAST\<close>; \<open>mv_ok\<close> says so of every entry of \<^verbatim>\<open>magic_vec\<close>.
  A string is \<open>resolved\<close> for a vector when each of its placeholders indexes an entry.
\<close>

definition magic_free :: "pylib \<Rightarrow> ustring \<Rightarrow> bool" where
  "magic_free L s = list_all (\<lambda>c. \<not> is_magic L c) s"

definition mv_ok :: "pylib \<Rightarrow> ustring list \<Rightarrow> bool" where
  "mv_ok L mv = list_all (magic_free L) mv"

definition resolved :: "pylib \<Rightarrow> ustring list \<Rightarrow> ustring \<Rightarrow> bool" where
  "resolved L mv s = list_all (\<lambda>c. is_magic L c \<longrightarrow> nat (c - MAGIC_FIRST L) < length mv) s"

text \<open>
  What the proofs need of the library: the placeholder range lies in the private planes,
  \<^verbatim>\<open>str.isspace\<close> holds for no placeholder, and on ASCII \<^verbatim>\<open>str.isspace\<close> and
  \<^verbatim>\<open>str.isalnum\<close> are those of Python.
\<close>

definition python_like :: "pylib \<Rightarrow> bool" where
  "python_like L =
     (0x100000 \<le> MAGIC_FIRST L \<and>
      (\<forall>c. is_magic L c \<longrightarrow> \<not> isspace L c) \<and>
      (\<forall>c. 0 \<le> c \<and> c < 0x80 \<longrightarrow>
         (isspace L c \<longleftrightarrow> (9 \<le> c \<and> c \<le> 13) \<or> (28 \<le> c \<and> c \<le> 32)) \<and>
         (isalnum L c \<longleftrightarrow> (0x30 \<le> c \<and> c \<le> 0x39) \<or> (0x41 \<le> c \<and> c \<le> 0x5A) \<or>
            (0x61 \<le> c \<and> c \<le> 0x7A))))"

text \<open>
  A glyph table is \<open>table_small\<close> when its glyphs lie below the private planes, and
  \<open>fn_ok\<close> is said of a converter that returns a string without placeholders on every
  string without placeholders.
\<close>

definition table_small :: "(ustring \<times> ustring) list \<Rightarrow> bool" where
  "table_small d = list_all (\<lambda>kv. list_all (\<lambda>c. c < 0x100000) (snd kv)) d"

definition fn_ok :: "pylib \<Rightarrow> (ustring \<Rightarrow> error + ustring) \<Rightarrow> bool" where
  "fn_ok L g = (\<forall>s. magic_free L s \<longrightarrow> (\<exists>r. g s = Inr r \<and> magic_free L r))"

text \<open>
  The shapes of what the patterns of the tokenizer match: \<open>span_of\<close> is a run of
  characters of one class from \<open>i\<close> up to \<open>e\<close>, \<open>arg_span\<close> a match of the argument
  pattern \<^verbatim>\<open>\\[a-zA-Z]+|\\.|.\<close>, \<open>frac_shape\<close> a match of \<^verbatim>\<open>\\frac\s*(A)\s*(A)\<close> and
  \<open>final_span\<close> a match of the last group of the tokenizer.
\<close>

definition letter :: "int \<Rightarrow> bool" where
  "letter c = ((0x61 \<le> c \<and> c \<le> 0x7A) \<or> (0x41 \<le> c \<and> c \<le> 0x5A))"

definition span_of :: "pylib \<Rightarrow> atom \<Rightarrow> ustring \<Rightarrow> nat \<Rightarrow> nat \<Rightarrow> bool" where
  "span_of L a t i e =
     (i \<le> e \<and> (\<forall>x. i \<le> x \<and> x < e \<longrightarrow> x < length t \<and> atom_ok L no_flags a (t ! x)))"

definition arg_span :: "ustring \<Rightarrow> nat \<Rightarrow> nat \<Rightarrow> bool" where
  "arg_span t s e =
     ((s < length t \<and> t ! s = bs \<and> Suc s < e \<and> e \<le> length t \<and>
       (\<forall>x. s < x \<and> x < e \<longrightarrow> letter (t ! x))) \<or>
      (e = s + 2 \<and> Suc s < length t \<and> t ! s = bs \<and> t ! Suc s \<noteq> 0x0A) \<or>
      (e = s + 1 \<and> s < length t \<and> t ! s \<noteq> 0x0A))"

definition frac_shape :: "pylib \<Rightarrow> ustring \<Rightarrow> nat \<Rightarrow> nat \<Rightarrow> nat \<Rightarrow> nat \<Rightarrow> nat \<Rightarrow> bool" where
  "frac_shape L t p k1 e1 k2 j =
     (p < length t \<and> t ! p = bs \<and> startswith (drop (Suc p) t) (u ''frac'') \<and>
      span_of L sp t (p + 5) k1 \<and> arg_span t k1 e1 \<and>
      span_of L sp t e1 k2 \<and> arg_span t k2 j)"

definition final_span :: "pylib \<Rightarrow> ustring \<Rightarrow> nat \<Rightarrow> nat \<Rightarrow> bool" where
  "final_span L t s e =
     ((s < length t \<and> t ! s = bs \<and>
       (\<exists>m. Suc s < m \<and> span_of L letters t (Suc s) m \<and> span_of L sp t m e)) \<or>
      (e = s + 2 \<and> Suc s < length t \<and> t ! s = bs \<and> t ! Suc s \<noteq> 0x0A) \<or>
      (s < e \<and> span_of L (In [CWord]) t s e) \<or>
      (e = s + 1 \<and> s < length t \<and> t ! s \<noteq> 0x0A))"

text \<open>
  A token is \<open>tame\<close> when the two branches of \<^verbatim>\<open>expand_group\<close> that do not end in
  \<^verbatim>\<open>expand\<close> are harmless on it: an unparseable \<^verbatim>\<open>\\frac\<close> holds no placeholder, and
  the radical index is not \<^verbatim>\<open>3\<close>.
\<close>

definition tame :: "pylib \<Rightarrow> ustring \<Rightarrow> bool" where
  "tame L v =
     ((matches L (cmd_guard ''frac'') v \<and> re_match L no_flags frac_re v = None \<longrightarrow> magic_free L v) \<and>
      (matches L sqrt_index_re v \<longrightarrow> strip L (drop 6 (butlast v)) \<noteq> u ''3''))"

text \<open>
  The matches of \<^verbatim>\<open>re.finditer\<close> are \<open>chained\<close>: not empty, in order, and none begins
  before the one before it ends. \<open>brace_match\<close> is a match of the pattern of
  \<^verbatim>\<open>math_magic\<close>: at least three characters, the group being what stands between the
  braces.
\<close>

fun chained :: "nat \<Rightarrow> nat \<Rightarrow> match list \<Rightarrow> bool" where
  "chained n p [] = True"
| "chained n p (m # ms) =
     (p \<le> m_start m \<and> m_start m < m_end m \<and> m_end m \<le> n \<and> chained n (m_end m) ms)"

definition brace_match :: "ustring \<Rightarrow> match \<Rightarrow> bool" where
  "brace_match t m =
     (m_start m + 3 \<le> m_end m \<and> m_end m \<le> length t \<and>
      group t m 1 = Some (slice t (Suc (m_start m)) (m_end m - 1)))"

text \<open>
  The outcomes of the functions of \<^verbatim>\<open>to_math\<close>. \<open>room\<close> says that \<open>n\<close> more
  placeholders can be numbered below \<^verbatim>\<open>0x110000\<close>, and a text \<open>fits\<close> a state when it is
  resolved and there is room for as many placeholders as it has characters.
  \<open>eg_ok\<close> is the outcome of \<^verbatim>\<open>expand_group\<close>, \<open>ft_ok\<close> that of the loop over the tokens,
  \<open>step_ok\<close> that of \<^verbatim>\<open>math_magic\<close> and of the loop of \<^verbatim>\<open>recurse\<close>, and \<open>rec_ok\<close> that of
  \<^verbatim>\<open>recurse\<close>: the call returns, an exception is IndexError or ValueError and is raised
  only on a text that does not fit, and the vector of placeholders only grows, by no more
  entries than the text loses characters.
\<close>

definition room :: "pylib \<Rightarrow> ustring list \<Rightarrow> nat \<Rightarrow> bool" where
  "room L mv n = (MAGIC_FIRST L + int (length mv) + int n \<le> 0x110000)"

definition fits :: "pylib \<Rightarrow> math_state \<Rightarrow> ustring \<Rightarrow> bool" where
  "fits L st src = (resolved L (magic_vec st) src \<and> room L (magic_vec st) (length src))"

definition eg_ok :: "pylib \<Rightarrow> ustring list \<Rightarrow> ustring \<Rightarrow> (ustring \<times> math_state) ret \<Rightarrow> bool" where
  "eg_ok L mv v y =
     (\<exists>res. y = Some res \<and>
        (res = Inl IndexError \<or> (\<exists>r st'. res = Inr (r, st') \<and> magic_free L r \<and> magic_vec st' = mv \<and>
             (strip L v = v \<longrightarrow> strip L r = r))) \<and>
        (resolved L mv v \<longrightarrow> (\<exists>r st'. res = Inr (r, st'))))"

definition ft_ok :: "pylib \<Rightarrow> ustring list \<Rightarrow> bool \<Rightarrow> (ustring list \<times> math_state) ret \<Rightarrow> bool" where
  "ft_ok L mv res_in y =
     (\<exists>res. y = Some res \<and>
        (res = Inl IndexError \<or>
         (\<exists>ps st'. res = Inr (ps, st') \<and> list_all (magic_free L) ps \<and> magic_vec st' = mv)) \<and>
        (res_in \<longrightarrow> (\<exists>ps st'. res = Inr (ps, st'))))"

definition step_ok :: "pylib \<Rightarrow> math_state \<Rightarrow> ustring \<Rightarrow> (ustring \<times> math_state) ret \<Rightarrow> bool" where
  "step_ok L st src y =
     ((\<exists>err. y = Some (Inl err) \<and> (err = IndexError \<or> err = ValueError) \<and> \<not> fits L st src) \<or>
      (\<exists>t' st' ext. y = Some (Inr (t', st')) \<and> mv_ok L (magic_vec st') \<and>
         magic_vec st' = magic_vec st @ ext \<and> length ext + length t' \<le> length src \<and>
         (t' = src \<or> length t' < length src) \<and>
         (resolved L (magic_vec st) src \<longrightarrow> resolved L (magic_vec st') t')))"

definition rec_ok :: "pylib \<Rightarrow> math_state \<Rightarrow> ustring \<Rightarrow> (ustring \<times> math_state) ret \<Rightarrow> bool" where
  "rec_ok L st src y =
     ((\<exists>err. y = Some (Inl err) \<and> (err = IndexError \<or> err = ValueError) \<and> \<not> fits L st src) \<or>
      (\<exists>r st' ext. y = Some (Inr (r, st')) \<and> magic_free L r \<and> mv_ok L (magic_vec st') \<and>
         magic_vec st' = magic_vec st @ ext \<and> length ext \<le> length src))"


text \<open>
  \<open>must r n\<close>: group \<open>n\<close> lies on every path through the pattern \<open>r\<close>, so that it takes
  part in every match. \<open>outcome E y\<close>: the call \<open>y\<close> returns, and an exception that it
  raises is one of \<open>E\<close>.
\<close>

fun must :: "re \<Rightarrow> nat \<Rightarrow> bool" where
  "must (Seq a b) n = (must a n \<or> must b n)"
| "must (Alt a b) n = (must a n \<and> must b n)"
| "must (Group k r) n = (k = n \<or> must r n)"
| "must (One a) n = False"
| "must (Opt r) n = False"
| "must (Star a) n = False"
| "must (Plus a) n = False"
| "must (LazyStar a) n = False"
| "must (LazyPlus a) n = False"
| "must Eos n = False"
| "must WordB n = False"
| "must Empty n = False"

definition outcome :: "error set \<Rightarrow> 'a ret \<Rightarrow> bool" where
  "outcome E y = (\<exists>res. y = Some res \<and> (\<forall>e. res = Inl e \<longrightarrow> e \<in> E))"


text \<open>
  \<open>nullable r\<close>: the pattern \<open>r\<close> may match the empty string. \<open>first_ok L f r x\<close>: a match
  of \<open>r\<close> that is not empty may begin with the character \<open>x\<close>. A character is \<open>special\<close>
  when a pattern of the tags and links of \<^verbatim>\<open>clean_value\<close> may begin with it: \<^verbatim>\<open><\<close>,
  \<^verbatim>\<open>{\<close> and \<^verbatim>\<open>[\<close>, and what the library takes for \<^verbatim>\<open><\<close> or \<^verbatim>\<open>[\<close> when the case is
  ignored.
\<close>

fun nullable :: "re \<Rightarrow> bool" where
  "nullable (One a) = False"
| "nullable (Seq a b) = (nullable a \<and> nullable b)"
| "nullable (Alt a b) = (nullable a \<or> nullable b)"
| "nullable (Opt r) = True"
| "nullable (Star a) = True"
| "nullable (Plus a) = False"
| "nullable (LazyStar a) = True"
| "nullable (LazyPlus a) = False"
| "nullable (Group n r) = nullable r"
| "nullable Eos = True"
| "nullable WordB = True"
| "nullable Empty = True"

fun first_ok :: "pylib \<Rightarrow> flags \<Rightarrow> re \<Rightarrow> int \<Rightarrow> bool" where
  "first_ok L f (One a) x = atom_ok L f a x"
| "first_ok L f (Seq a b) x = (first_ok L f a x \<or> (nullable a \<and> first_ok L f b x))"
| "first_ok L f (Alt a b) x = (first_ok L f a x \<or> first_ok L f b x)"
| "first_ok L f (Opt r) x = first_ok L f r x"
| "first_ok L f (Star a) x = atom_ok L f a x"
| "first_ok L f (Plus a) x = atom_ok L f a x"
| "first_ok L f (LazyStar a) x = atom_ok L f a x"
| "first_ok L f (LazyPlus a) x = atom_ok L f a x"
| "first_ok L f (Group n r) x = first_ok L f r x"
| "first_ok L f Eos x = False"
| "first_ok L f WordB x = False"
| "first_ok L f Empty x = False"

definition special :: "pylib \<Rightarrow> int \<Rightarrow> bool" where
  "special L x = (x = 0x3C \<or> x = 0x7B \<or> x = 0x5B \<or> caseless L 0x3C x \<or> caseless L 0x5B x)"

text \<open>
  A string is \<open>settled\<close> when \<^verbatim>\<open>clean_value\<close> has nothing left to do on it: no special
  character, no non-breaking space, tab or carriage return, no two apostrophes in a row,
  no space before a space or a newline, no two newlines in a row, and nothing that
  \<^verbatim>\<open>html.unescape\<close> or the NFC normalization would change.
\<close>

definition no_pair :: "(int \<Rightarrow> bool) \<Rightarrow> (int \<Rightarrow> bool) \<Rightarrow> ustring \<Rightarrow> bool" where
  "no_pair P Q s = list_all (\<lambda>(x, y). \<not> (P x \<and> Q y)) (zip s (tl s))"

definition settled :: "pylib \<Rightarrow> ustring \<Rightarrow> bool" where
  "settled L s =
     (list_all (\<lambda>x. \<not> special L x \<and> x \<noteq> 0xA0 \<and> x \<noteq> 0x09 \<and> x \<noteq> 0x0D) s \<and>
      no_pair (\<lambda>x. x = 0x27) (\<lambda>y. y = 0x27) s \<and>
      no_pair (\<lambda>x. x = 0x20) (\<lambda>y. y = 0x20 \<or> y = 0x0A) s \<and>
      no_pair (\<lambda>x. x = 0x0A) (\<lambda>y. y = 0x0A) s \<and>
      unescape L s = s \<and> normalize_NFC L s = s)"

text \<open>
  For the texts made of brace groups \<^verbatim>\<open>{a}\<close>: the text of \<open>n\<close> groups, the matches of
  the brace pattern in it, the placeholders that replace the groups, the matches of the
  token pattern in a text of single-character tokens, and what \<^verbatim>\<open>expand\<close> makes of the
  \<open>i\<close>-th placeholder once every entry of \<^verbatim>\<open>magic_vec\<close> is \<^verbatim>\<open>a\<close>.
\<close>

definition high_inert :: "pylib \<Rightarrow> bool" where
  "high_inert L = (\<forall>x. 0x100000 \<le> x \<longrightarrow> \<not> isspace L x \<and> \<not> isalnum L x)"

definition brace_groups :: "nat \<Rightarrow> ustring" where
  "brace_groups n = concat (replicate n [0x7B, 0x61, 0x7D])"

definition brace_m :: "nat \<Rightarrow> match" where
  "brace_m k = \<lparr>m_start = 3 * k, m_end = 3 * k + 3, m_caps = [(1, 3 * k + 1, 3 * k + 2)]\<rparr>"

definition returns_a :: "(ustring \<Rightarrow> math_state \<Rightarrow> (ustring \<times> math_state) ret) \<Rightarrow> bool" where
  "returns_a fn = (\<forall>st. \<exists>st'. fn [0x61] st = Some (Inr ([0x61], st')) \<and> magic_vec st' = magic_vec st)"

definition marks :: "pylib \<Rightarrow> nat \<Rightarrow> nat \<Rightarrow> ustring" where
  "marks L k n = map (\<lambda>i. MAGIC_FIRST L + int (k + i)) [0..<n]"

definition plain_char :: "pylib \<Rightarrow> int \<Rightarrow> bool" where
  "plain_char L x = (x \<noteq> bs \<and> x \<noteq> 0x5F \<and> x \<noteq> 0x5E \<and> x \<noteq> 0x0A \<and> x \<noteq> 0x26 \<and> \<not> isspace L x)"

definition token_m :: "nat \<Rightarrow> match" where
  "token_m k = \<lparr>m_start = k, m_end = Suc k, m_caps = [(6, k, Suc k)]\<rparr>"

definition shown :: "pylib \<Rightarrow> nat \<Rightarrow> ustring" where
  "shown L i = (if MAGIC_FIRST L + int i \<le> MAGIC_LAST L then [0x61] else [MAGIC_FIRST L + int i])"

text \<open>
  For the last substitutions of \<^verbatim>\<open>clean_value\<close>, whose patterns are runs of characters:
  \<open>subs mu new xs\<close> is what \<^verbatim>\<open>re.sub\<close> makes of \<open>xs\<close> when \<open>mu\<close> tells of every rest of the
  text how many characters the pattern matches at its beginning (none when 0): the scan
  goes from left to right, keeps a character at which no match begins and replaces a
  match by \<open>new\<close>. \<open>mu_quotes\<close>, \<open>mu_nbsp\<close>, \<open>mu_blanks\<close> and \<open>mu_newlines\<close> are these
  lengths for the patterns of two or more apostrophes, of the non-breaking space, of
  \<^verbatim>\<open>[ \t\r]+\<close> and of \<^verbatim>\<open> *\n+\<close>.
\<close>

function subs :: "(ustring \<Rightarrow> nat) \<Rightarrow> ustring \<Rightarrow> ustring \<Rightarrow> ustring" where
  "subs mu new xs =
     (if xs = [] then []
      else if mu xs = 0 then hd xs # subs mu new (tl xs)
      else new @ subs mu new (drop (mu xs) xs))"
  by pat_completeness auto
termination
  by (relation "measure (\<lambda>(mu, new, xs). length xs)") auto






section \<open>Literal prefixes of a match\<close>

lemma paths_chr:
  "paths L no_flags (One (Chr c)) t (i, cs) =
     (if i < length t \<and> t ! i = c then [(Suc i, cs)] else [])"
  by (simp add: no_flags_def)

lemma startswith_drop_Cons:
  "startswith (drop i t) (c # p) = (i < length t \<and> t ! i = c \<and> startswith (drop (Suc i) t) p)"
proof (cases "i < length t")
  case True
  then have "drop i t = t ! i # drop (Suc i) t" by (simp add: Cons_nth_drop_Suc)
  then show ?thesis using True by (simp add: startswith_def)
next
  case False
  then show ?thesis by (simp add: startswith_def)
qed

lemma paths_lits:
  "paths L no_flags (lits s) t (i, cs) =
     (if startswith (drop i t) (u s) then [(i + length s, cs)] else [])"
proof (induction s arbitrary: i)
  case Nil
  then show ?case by (simp add: lits_def seqs_def startswith_def u_def)
next
  case (Cons a s)
  have l: "lits (a # s) = Seq (One (Chr (of_char a))) (lits s)"
    by (simp add: lits_def seqs_def)
  have us: "u (a # s) = of_char a # u s" by (simp add: u_def)
  show ?case
    unfolding l us startswith_drop_Cons
    by (simp add: paths_chr Cons del: paths.simps(1))
qed

lemma matches_cmd:
  "matches L (Seq (One (Chr c)) (Seq (lits s) r)) v \<Longrightarrow> startswith v (c # u s)"
  using startswith_drop_Cons [of 0 v c "u s"]
  by (auto simp: matches_def re_match_def match_at_def paths_chr paths_lits
        simp del: paths.simps(1) split: if_splits)

lemma startswith_two:
  "startswith v (c # d # p) \<Longrightarrow> 1 < length v \<and> v ! 0 = c \<and> v ! 1 = d"
  using startswith_drop_Cons [of 0 v c "d # p"] startswith_drop_Cons [of 1 v d p]
  by simp

lemma matches_cmd_second:
  "matches L (Seq (One (Chr c)) (Seq (lits (d # s)) r)) v \<Longrightarrow> v ! 1 = of_char d"
  using matches_cmd [of L c "d # s" r v] startswith_two [of v c "of_char d" "u s"]
  by (simp add: u_def)

lemma matches_begin_end:
  assumes "matches L (seqs [One (Chr bs), Group 1 (Alt (lits ''begin'') (lits ''end'')), WordB]) v"
  shows "v ! 1 = 0x62 \<or> v ! 1 = 0x65"
proof -
  have "startswith (drop 1 v) (u ''begin'') \<or> startswith (drop 1 v) (u ''end'')"
    using assms
    by (auto simp: matches_def re_match_def match_at_def seqs_def paths_chr paths_lits
          simp del: paths.simps(1) split: if_splits)
  then show ?thesis
    using startswith_drop_Cons [of 1 v "0x62" "u ''egin''"]
      startswith_drop_Cons [of 1 v "0x65" "u ''nd''"]
    by (auto simp: u_def)
qed

section \<open>Properties of the script converters\<close>

lemma join_items_all:
  "list_all (\<lambda>x. dict_has d [x]) text \<Longrightarrow>
   join_items d text = Inr (concat (map (\<lambda>x. the (dict_get d [x])) text))"
  by (induction "text") (auto simp: dict_has_def)

text \<open>
  C3. \<open>to_superscript\<close> returns the empty string on the empty string; the concatenation of
  the mapped glyphs when every character has an entry in the superscript table; the caret
  followed by the text when a character is unmapped and the text is one character long;
  and the text in \<open>^(...)\<close> when a character is unmapped and the text is longer.
\<close>

theorem to_superscript_cases:
  "(text = [] \<longrightarrow> to_superscript text = Inr []) \<and>
   ((\<forall>x \<in> set text. dict_has superscript_ht [x]) \<longrightarrow>
      to_superscript text = Inr (concat (map (\<lambda>x. the (dict_get superscript_ht [x])) text))) \<and>
   ((\<exists>x \<in> set text. \<not> dict_has superscript_ht [x]) \<and> length text = 1 \<longrightarrow>
      to_superscript text = Inr (u ''^'' @ text)) \<and>
   ((\<exists>x \<in> set text. \<not> dict_has superscript_ht [x]) \<and> 1 < length text \<longrightarrow>
      to_superscript text = Inr (u ''^('' @ text @ u '')''))"
proof (intro conjI impI)
  assume "text = []"
  then show "to_superscript text = Inr []" by (simp add: to_superscript_def)
next
  assume a: "\<forall>x \<in> set text. dict_has superscript_ht [x]"
  then have "list_all (\<lambda>x. dict_has superscript_ht [x]) text" by (simp add: list_all_iff)
  then show "to_superscript text =
      Inr (concat (map (\<lambda>x. the (dict_get superscript_ht [x])) text))"
    by (cases "text = []") (simp_all add: to_superscript_def join_items_all)
next
  assume "(\<exists>x \<in> set text. \<not> dict_has superscript_ht [x]) \<and> length text = 1"
  then show "to_superscript text = Inr (u ''^'' @ text)"
    by (auto simp: to_superscript_def list_all_iff)
next
  assume "(\<exists>x \<in> set text. \<not> dict_has superscript_ht [x]) \<and> 1 < length text"
  then show "to_superscript text = Inr (u ''^('' @ text @ u '')'')"
    by (auto simp: to_superscript_def list_all_iff)
qed

theorem to_superscript_cases_witness:
  "to_superscript [] = Inr [] \<and>
   to_superscript (u ''2n'') = Inr [0xB2, 0x207F] \<and>
   to_superscript (u ''q'') = Inr (u ''^q'') \<and>
   to_superscript (u ''10'') = Inr (u ''^(10)'')"
proof -
  have m: "\<forall>x \<in> set (u ''2n''). dict_has superscript_ht [x]" by code_simp
  have q: "(\<exists>x \<in> set (u ''q''). \<not> dict_has superscript_ht [x]) \<and> length (u ''q'') = 1"
    by code_simp
  have z: "(\<exists>x \<in> set (u ''10''). \<not> dict_has superscript_ht [x]) \<and> 1 < length (u ''10'')"
    by code_simp
  have g: "concat (map (\<lambda>x. the (dict_get superscript_ht [x])) (u ''2n'')) = [0xB2, 0x207F]"
    by code_simp
  show ?thesis
    using to_superscript_cases [of "[]"] to_superscript_cases [of "u ''2n''"] m g
      to_superscript_cases [of "u ''q''"] q to_superscript_cases [of "u ''10''"] z
    by (simp add: u_def)
qed

section \<open>Square roots\<close>

text \<open>
  C1. The claim: \<^verbatim>\<open>to_math("\\sqrt{2}")\<close> is \<^verbatim>\<open>"\<close>\<open>\<surd>\<close>\<^verbatim>\<open>2"\<close>, \<^verbatim>\<open>to_math("\\sqrt[3]{8}")\<close> is
  the cube root sign followed by 8, and an index 2, 3 or 4 gives the root glyph. The code
  does not do that. The token of a root holds its argument, which the branch overwrites,
  so \<^verbatim>\<open>\sqrt{2}\<close> yields the root sign alone; \<^verbatim>\<open>v[6:-1]\<close> of the token
  \<^verbatim>\<open>\sqrt[3]\<close> followed by the argument's placeholder is \<^verbatim>\<open>3]\<close>, never \<^verbatim>\<open>3\<close>, so
  \<^verbatim>\<open>\sqrt[3]{8}\<close> yields \<^verbatim>\<open>^(3])\<close> and the root sign; and on the token
  \<^verbatim>\<open>\sqrt[3]\<close> itself the branch for index 3 binds a tuple, so that the next statement
  raises AttributeError.
\<close>

theorem to_math_sqrt_drops_argument:
  "to_math cpython (bs # u ''sqrt{2}'') = Some (Inr [0x221A]) \<and>
   to_math cpython (bs # u ''sqrt[3]{8}'') = Some (Inr (u ''^(3])'' @ [0x221A])) \<and>
   expand_group cpython [] (bs # u ''sqrt[3]'') \<lparr>magic_vec = [], stdout = []\<rparr> =
     Some (Inl AttributeError)"
  by code_simp

section \<open>Fractions\<close>

lemma frac_guard_second: "matches L (cmd_guard ''frac'') v \<Longrightarrow> v ! 1 = 0x66"
  using matches_cmd_second [of L bs "CHR ''f''" "''rac''" _ v]
  by (simp add: cmd_guard_def seqs_def)

lemma frac_guard_excludes:
  assumes "matches L (cmd_guard ''frac'') v"
  shows "\<not> matches L (seqs [One (Chr bs), lits ''mathcal'', WordB]) v"
    and "\<not> matches L (seqs [One (Chr bs), lits ''mathfrak'', WordB]) v"
    and "\<not> matches L (seqs [One (Chr bs), lits ''mathbb'', WordB]) v"
    and "\<not> matches L (seqs [One (Chr bs), Group 1 (Alt (lits ''begin'') (lits ''end'')), WordB]) v"
    and "\<not> matches L (seqs [One (Chr bs), lits ''text'', WordB]) v"
    and "\<not> matches L sqrt_index_re v"
    and "\<not> matches L (cmd_guard ''sqrt'') v"
  using frac_guard_second [OF assms] matches_begin_end [of L v]
    matches_cmd_second [of L bs "CHR ''m''" "''athcal''" "Seq WordB Empty" v]
    matches_cmd_second [of L bs "CHR ''m''" "''athfrak''" "Seq WordB Empty" v]
    matches_cmd_second [of L bs "CHR ''m''" "''athbb''" "Seq WordB Empty" v]
    matches_cmd_second [of L bs "CHR ''t''" "''ext''" "Seq WordB Empty" v]
    matches_cmd_second [of L bs "CHR ''s''" "''qrt''" "Seq (One (Chr 0x5B)) Empty" v]
    matches_cmd_second [of L bs "CHR ''s''" "''qrt''" _ v]
  by (auto simp: seqs_def cmd_guard_def sqrt_index_re_def)

text \<open>
  C4. A token that begins with the command \<^verbatim>\<open>\frac\<close> (it passes the test of line 658)
  and whose arguments do not have the expected shape (the pattern of lines 660-661 does not
  match): \<open>expand_group\<close> prints the token and the diagnostic \<^verbatim>\<open>MATH FRAC ERROR\<close> and
  returns the token unchanged, and the loop over the tokens appends it as it is to the
  parts of the output.
\<close>

theorem frac_unparseable_kept:
  assumes "matches L (cmd_guard ''frac'') v"
    and "re_match L no_flags frac_re v = None"
  shows "expand_group L parts v st =
           Some (Inr (v, print Log_MATH_FRAC_ERROR (print (Log_frac v) st))) \<and>
         (group0 t m = v \<longrightarrow>
          for_tokens L t (m # ms) parts st =
            for_tokens L t ms (parts @ [v]) (print Log_MATH_FRAC_ERROR (print (Log_frac v) st)))"
proof -
  have e: "expand_group L parts v st =
      Some (Inr (v, print Log_MATH_FRAC_ERROR (print (Log_frac v) st)))"
    using frac_guard_excludes [OF assms(1)] assms
    by (subst expand_group.simps) simp
  have "v \<noteq> []"
    using assms(1)
    by (auto simp: matches_def re_match_def match_at_def cmd_guard_def seqs_def paths_chr
          simp del: paths.simps(1))
  then show ?thesis
    using e by (simp add: ret_bind_def)
qed

theorem frac_unparseable_kept_witness:
  "matches cpython (cmd_guard ''frac'') (bs # u ''frac '') \<and>
   re_match cpython no_flags frac_re (bs # u ''frac '') = None \<and>
   expand_group cpython [] (bs # u ''frac '') \<lparr>magic_vec = [], stdout = []\<rparr> =
     Some (Inr (bs # u ''frac '',
       \<lparr>magic_vec = [], stdout = [Log_frac (bs # u ''frac ''), Log_MATH_FRAC_ERROR]\<rparr>)) \<and>
   to_math cpython (u ''x'' @ bs # u ''frac '') = Some (Inr (u ''x'' @ bs # u ''frac ''))"
proof -
  have g: "matches cpython (cmd_guard ''frac'') (bs # u ''frac '')" by code_simp
  have n: "re_match cpython no_flags frac_re (bs # u ''frac '') = None" by code_simp
  have t: "to_math cpython (u ''x'' @ bs # u ''frac '') = Some (Inr (u ''x'' @ bs # u ''frac ''))"
    by code_simp
  show ?thesis
    using frac_unparseable_kept [OF g n, of "[]" "\<lparr>magic_vec = [], stdout = []\<rparr>"] g n t
    by (simp add: print_def)
qed

section \<open>Unicode normalization\<close>

text \<open>
  C9 (as claimed). Every output of the component is NFC-normalized, the output of
  \<^verbatim>\<open>to_math\<close> in particular. \<^verbatim>\<open>to_math\<close> does not normalize: the table \<^verbatim>\<open>math_map\<close>
  maps \<^verbatim>\<open>tcohm\<close> to the ohm sign U+2126, whose NFC form is the Greek capital omega
  U+03A9, so \<^verbatim>\<open>to_math("\\tcohm")\<close> is not its own normalization.
\<close>

theorem to_math_not_normalized:
  "to_math cpython (bs # u ''tcohm'') = Some (Inr [0x2126]) \<and>
   normalize_NFC cpython [0x2126] \<noteq> [0x2126]"
  by code_simp

text \<open>
  C9 (amended). What \<^verbatim>\<open>clean_value\<close> returns is the NFC normalization of the cleaned
  text (line 829), so it is its own normalization, NFC being idempotent. The other entry
  points do not normalize.
\<close>

theorem clean_value_normalized:
  assumes "\<forall>s. normalize_NFC L (normalize_NFC L s) = normalize_NFC L s"
    and "clean_value L d config title no_strip = Some (Inr r)"
  shows "normalize_NFC L r = r"
proof (cases d)
  case 0
  then show ?thesis using assms(2) by simp
next
  case (Suc n)
  then obtain x where "r = clean_text L x no_strip"
    using assms(2)
    by (auto simp: ret_bind_def split: if_splits option.splits sum.splits Option.bind_splits)
  then show ?thesis using assms(1) by (simp add: clean_text_def Let_def)
qed

theorem clean_value_normalized_witness:
  "(\<forall>s. normalize_NFC cpython (normalize_NFC cpython s) = normalize_NFC cpython s) \<and>
   clean_value cpython 1 WiktionaryConfig (u ''<math>'' @ bs # u ''tcohm</math>'') False =
     Some (Inr [0x3A9]) \<and>
   normalize_NFC cpython [0x3A9] = [0x3A9]"
proof -
  have i: "\<forall>s. normalize_NFC cpython (normalize_NFC cpython s) = normalize_NFC cpython s"
    by (simp add: cpython_def nfc_singleton_def)
  have c: "clean_value cpython 1 WiktionaryConfig (u ''<math>'' @ bs # u ''tcohm</math>'') False =
     Some (Inr [0x3A9])"
    by code_simp
  show ?thesis
    using clean_value_normalized [OF i c] i c by simp
qed

section \<open>Bounds of a match\<close>

lemma run_le: "run L f a t i \<le> length t - i"
  unfolding run_def using length_takeWhile_le [of "atom_ok L f a" "drop i t"] by simp

lemma paths_bounds:
  "(j, c') \<in> set (paths L f r t (i, c)) \<Longrightarrow> i \<le> length t \<Longrightarrow>
   i \<le> j \<and> j \<le> length t \<and>
   (\<exists>new. c' = new @ c \<and> (\<forall>(n, s, e) \<in> set new. i \<le> s \<and> s \<le> e \<and> e \<le> j))"
proof (induction r arbitrary: i c j c')
  case (One a)
  then show ?case by (auto split: if_splits)
next
  case (Seq r1 r2)
  from Seq.prems(1) obtain k d where 1: "(k, d) \<in> set (paths L f r1 t (i, c))"
    and 2: "(j, c') \<in> set (paths L f r2 t (k, d))"
    by auto
  from Seq.IH(1) [OF 1 Seq.prems(2)] obtain n1 where
    a: "i \<le> k" "k \<le> length t" "d = n1 @ c" "\<forall>(n, s, e) \<in> set n1. i \<le> s \<and> s \<le> e \<and> e \<le> k"
    by auto
  from Seq.IH(2) [OF 2 a(2)] obtain n2 where
    b: "k \<le> j" "j \<le> length t" "c' = n2 @ d" "\<forall>(n, s, e) \<in> set n2. k \<le> s \<and> s \<le> e \<and> e \<le> j"
    by auto
  have "c' = (n2 @ n1) @ c" using a b by simp
  moreover have "\<forall>(n, s, e) \<in> set (n2 @ n1). i \<le> s \<and> s \<le> e \<and> e \<le> j"
    using a b by fastforce
  ultimately show ?case using a b by (intro conjI exI [of _ "n2 @ n1"]) auto
next
  case (Alt r1 r2)
  then show ?case by auto
next
  case (Opt r)
  then show ?case by auto
next
  case (Star a)
  then show ?case using run_le [of L f a t i] by auto
next
  case (Plus a)
  then show ?case using run_le [of L f a t i] by auto
next
  case (LazyStar a)
  then show ?case using run_le [of L f a t i] by auto
next
  case (LazyPlus a)
  then show ?case using run_le [of L f a t i] by auto
next
  case (Group n r)
  from Group.prems(1) obtain d where 1: "(j, d) \<in> set (paths L f r t (i, c))" and 2: "c' = (n, i, j) # d"
    by auto
  from Group.IH [OF 1 Group.prems(2)] obtain n1 where
    a: "i \<le> j" "j \<le> length t" "d = n1 @ c" "\<forall>(n, s, e) \<in> set n1. i \<le> s \<and> s \<le> e \<and> e \<le> j"
    by auto
  have "c' = ((n, i, j) # n1) @ c" using a 2 by simp
  moreover have "\<forall>(n, s, e) \<in> set ((n, i, j) # n1). i \<le> s \<and> s \<le> e \<and> e \<le> j"
    using a by auto
  ultimately show ?case using a by blast
next
  case Eos
  then show ?case by (auto split: if_splits)
next
  case WordB
  then show ?case by (auto split: if_splits)
next
  case Empty
  then show ?case by auto
qed

lemma match_at_bounds:
  assumes "match_at L f r t p = Some m" and "p \<le> length t"
  shows "m_start m = p \<and> p \<le> m_end m \<and> m_end m \<le> length t \<and>
         (\<forall>(n, s, e) \<in> set (m_caps m). p \<le> s \<and> s \<le> e \<and> e \<le> m_end m)"
proof -
  from assms(1) obtain j c rest where h: "paths L f r t (p, []) = (j, c) # rest"
    and m: "m = \<lparr>m_start = p, m_end = j, m_caps = c\<rparr>"
    by (auto simp: match_at_def split: list.splits)
  then have "(j, c) \<in> set (paths L f r t (p, []))" by simp
  from paths_bounds [OF this assms(2)] show ?thesis using m by auto
qed

lemma finditer_from_set:
  "m \<in> set (finditer_from L f r t p) \<Longrightarrow>
   \<exists>q. p \<le> q \<and> q \<le> length t \<and> match_at L f r t q = Some m"
proof (induction L f r t p rule: finditer_from.induct)
  case (1 L f r t p)
  show ?case
  proof (cases "length t < p")
    case True
    then show ?thesis using "1.prems" by simp
  next
    case False
    show ?thesis
    proof (cases "match_at L f r t p")
      case None
      then have "m \<in> set (finditer_from L f r t (Suc p))" using "1.prems" False by simp
      from "1.IH"(1) [OF False None this] show ?thesis by (meson Suc_leD)
    next
      case (Some m')
      then have "m = m' \<or> m \<in> set (finditer_from L f r t (if m_end m' \<le> p then Suc p else m_end m'))"
        using "1.prems" False by simp
      then show ?thesis
      proof
        assume "m = m'"
        then show ?thesis using Some False by auto
      next
        assume a: "m \<in> set (finditer_from L f r t (if m_end m' \<le> p then Suc p else m_end m'))"
        from "1.IH"(2) [OF False Some a] obtain q where
          "(if m_end m' \<le> p then Suc p else m_end m') \<le> q" "q \<le> length t" "match_at L f r t q = Some m"
          by auto
        then show ?thesis by (cases "m_end m' \<le> p") (auto intro: exI [of _ q])
      qed
    qed
  qed
qed

lemma slice_set: "set (slice t i j) \<subseteq> set t"
  unfolding slice_def by (meson set_drop_subset set_take_subset subset_trans)

lemma group_set: "group t m n = Some g \<Longrightarrow> set g \<subseteq> set t"
  using slice_set by (auto simp: group_def split: if_splits)

lemma group0_set: "set (group0 t m) \<subseteq> set t"
  using slice_set by (simp add: group0_def)

section \<open>Placeholders and their expansion\<close>

lemma magic_free_append [simp]: "magic_free L (a @ b) = (magic_free L a \<and> magic_free L b)"
  by (simp add: magic_free_def)

lemma magic_free_Nil [simp]: "magic_free L []"
  by (simp add: magic_free_def)

lemma magic_free_Cons: "magic_free L (c # s) = (\<not> is_magic L c \<and> magic_free L s)"
  by (simp add: magic_free_def)

lemma magic_free_subset: "magic_free L s \<Longrightarrow> set r \<subseteq> set s \<Longrightarrow> magic_free L r"
  by (auto simp: magic_free_def list_all_iff)

lemma resolved_subset: "resolved L mv s \<Longrightarrow> set r \<subseteq> set s \<Longrightarrow> resolved L mv r"
  by (auto simp: resolved_def list_all_iff)

lemma magic_free_resolved: "magic_free L s \<Longrightarrow> resolved L mv s"
  by (auto simp: resolved_def magic_free_def list_all_iff)

lemma resolved_append [simp]: "resolved L mv (a @ b) = (resolved L mv a \<and> resolved L mv b)"
  by (simp add: resolved_def)

lemma resolved_grow: "resolved L mv s \<Longrightarrow> length mv \<le> length mv' \<Longrightarrow> resolved L mv' s"
  by (auto simp: resolved_def list_all_iff)

lemma set_strip: "set (strip L s) \<subseteq> set s"
proof -
  have "set (dropWhile (isspace L) (rev (dropWhile (isspace L) s))) \<subseteq> set (rev (dropWhile (isspace L) s))"
    by (rule set_dropWhileD [THEN subsetI])
  moreover have "set (dropWhile (isspace L) s) \<subseteq> set s"
    by (rule set_dropWhileD [THEN subsetI])
  ultimately show ?thesis by (auto simp: strip_def)
qed

lemma length_strip: "length (strip L s) \<le> length s"
proof -
  have "length (dropWhile (isspace L) (rev (dropWhile (isspace L) s))) \<le> length (rev (dropWhile (isspace L) s))"
    by (rule length_dropWhile_le)
  moreover have "length (dropWhile (isspace L) s) \<le> length s"
    by (rule length_dropWhile_le)
  ultimately show ?thesis by (simp add: strip_def)
qed

lemma strip_ends:
  assumes "strip L s \<noteq> []"
  shows "\<not> isspace L (hd (strip L s)) \<and> \<not> isspace L (last (strip L s))"
proof -
  let ?d = "dropWhile (isspace L) s"
  let ?e = "dropWhile (isspace L) (rev ?d)"
  have e: "?e \<noteq> []" using assms by (simp add: strip_def)
  have d: "?d \<noteq> []"
  proof
    assume "?d = []"
    then have "?e = []" by (simp only: rev.simps(1) dropWhile.simps(1))
    then show False using e by (simp only:)
  qed
  have 1: "\<not> isspace L (hd ?e)" using e by (rule hd_dropWhile)
  have "rev ?d = takeWhile (isspace L) (rev ?d) @ ?e" by simp
  then have "last (rev ?d) = last ?e" using e by (metis last_appendR)
  then have "last ?e = hd ?d" using d by (simp add: last_rev)
  moreover have "\<not> isspace L (hd ?d)" using d by (rule hd_dropWhile)
  ultimately have 2: "\<not> isspace L (last ?e)" by simp
  show ?thesis using 1 2 e by (simp add: strip_def hd_rev last_rev)
qed

lemma strip_id:
  assumes "s = [] \<or> (\<not> isspace L (hd s) \<and> \<not> isspace L (last s))"
  shows "strip L s = s"
proof (cases "s = []")
  case True
  then show ?thesis by (simp add: strip_def)
next
  case False
  then have 1: "dropWhile (isspace L) s = s" using assms by (cases s) auto
  have n: "rev s \<noteq> []" using False by simp
  have "hd (rev s) = last s" using False by (simp add: hd_rev)
  then have "\<not> isspace L (hd (rev s))" using assms False by simp
  then have "dropWhile (isspace L) (rev s) = rev s" using n by (cases "rev s") auto
  then show ?thesis using 1 by (simp add: strip_def)
qed

lemma strip_idem: "strip L (strip L x) = strip L x"
  using strip_ends [of L x] by (intro strip_id) auto

lemma magic_small: "python_like L \<Longrightarrow> c < 0x100000 \<Longrightarrow> \<not> is_magic L c"
  by (auto simp: python_like_def is_magic_def)

subsection \<open>One pass of placeholder expansion\<close>

lemma expand_pass_free: "magic_free L s \<Longrightarrow> expand_pass L mv s = Inr s"
  by (induction s) (auto simp: magic_free_Cons)

lemma expand_pass_error: "expand_pass L mv s = Inl e \<Longrightarrow> e = IndexError"
  by (induction s arbitrary: e) (auto split: if_splits sum.splits)

lemma expand_pass_result:
  "mv_ok L mv \<Longrightarrow> expand_pass L mv s = Inr r \<Longrightarrow> magic_free L r"
proof (induction s arbitrary: r)
  case Nil
  then show ?case by simp
next
  case (Cons c s)
  show ?case
  proof (cases "is_magic L c")
    case True
    with Cons.prems(2) obtain r' where r: "expand_pass L mv s = Inr r'"
      "nat (c - MAGIC_FIRST L) < length mv" "r = mv ! nat (c - MAGIC_FIRST L) @ r'"
      by (auto split: if_splits sum.splits)
    have "magic_free L (mv ! nat (c - MAGIC_FIRST L))"
      using Cons.prems(1) r(2) by (simp add: mv_ok_def list_all_length)
    then show ?thesis using Cons.IH [OF Cons.prems(1) r(1)] r(3) by simp
  next
    case False
    with Cons.prems(2) obtain r' where r: "expand_pass L mv s = Inr r'" "r = c # r'"
      by (auto split: sum.splits)
    then show ?thesis using Cons.IH [OF Cons.prems(1) r(1)] False by (simp add: magic_free_Cons)
  qed
qed

lemma expand_pass_resolved: "resolved L mv s \<Longrightarrow> \<exists>r. expand_pass L mv s = Inr r"
  by (induction s) (auto simp: resolved_def)

subsection \<open>The loop of \<open>expand\<close>\<close>

lemma expand_while_free: "magic_free L s \<Longrightarrow> expand_while L mv s = Some (Inr s)"
  by (subst expand_while.simps) (simp add: expand_pass_free)

lemma expand_while_total:
  assumes "mv_ok L mv"
  shows "\<exists>res. expand_while L mv s = Some res \<and>
           (res = Inl IndexError \<or> (\<exists>r. res = Inr r \<and> magic_free L r)) \<and>
           (resolved L mv s \<longrightarrow> (\<exists>r. res = Inr r))"
proof (cases "expand_pass L mv s")
  case (Inl e)
  then have "expand_while L mv s = Some (Inl IndexError)"
    using expand_pass_error [OF Inl] by (subst expand_while.simps) simp
  moreover have "\<not> resolved L mv s" using Inl expand_pass_resolved [of L mv s] by auto
  ultimately show ?thesis by simp
next
  case (Inr r)
  have f: "magic_free L r" using expand_pass_result [OF assms Inr] .
  have "expand_while L mv s = Some (Inr r)"
  proof (cases "r = s")
    case True
    then show ?thesis using Inr by (subst expand_while.simps) simp
  next
    case False
    then have "expand_while L mv s = expand_while L mv r"
      using Inr by (subst expand_while.simps) simp
    then show ?thesis using expand_while_free [OF f] by simp
  qed
  then show ?thesis using f by simp
qed

lemma expand_free: "magic_free L s \<Longrightarrow> expand L mv s = Some (Inr (strip L s))"
  by (simp add: expand_def expand_while_free ret_bind_def)

lemma expand_total:
  assumes "mv_ok L mv"
  shows "\<exists>res. expand L mv s = Some res \<and>
           (res = Inl IndexError \<or> (\<exists>r. res = Inr r \<and> magic_free L r \<and> strip L r = r)) \<and>
           (resolved L mv s \<longrightarrow> (\<exists>r. res = Inr r))"
proof -
  note idem = strip_idem
  from expand_while_total [OF assms, of s] obtain res where
    r: "expand_while L mv s = Some res"
       "res = Inl IndexError \<or> (\<exists>r. res = Inr r \<and> magic_free L r)"
       "resolved L mv s \<longrightarrow> (\<exists>r. res = Inr r)"
    by auto
  show ?thesis
  proof (cases res)
    case (Inl e)
    then show ?thesis using r by (auto simp: expand_def ret_bind_def)
  next
    case (Inr x)
    then have "magic_free L (strip L x)" using r(2) magic_free_subset [OF _ set_strip] by auto
    then show ?thesis using r Inr idem by (auto simp: expand_def ret_bind_def)
  qed
qed

section \<open>Glyph tables, converters and the last steps of expand_group\<close>

lemma tables_small:
  "table_small superscript_ht" "table_small subscript_ht" "table_small math_map"
  "table_small mathcal_map" "table_small mathfrak_map" "table_small mathbb_map"
  by code_simp+

lemma dict_get_small:
  assumes "table_small d" and "dict_get d k = Some v" and "python_like L"
  shows "magic_free L v"
proof -
  have "(k, v) \<in> set d" using assms(2) by (auto simp: dict_get_def dest: map_of_SomeD)
  then have "\<forall>c \<in> set v. c < 0x100000" using assms(1) by (auto simp: table_small_def list_all_iff)
  then show ?thesis using magic_small [OF assms(3)] by (auto simp: magic_free_def list_all_iff)
qed

lemma u_free: "python_like L \<Longrightarrow> \<forall>c \<in> set s. c < 0x100000 \<Longrightarrow> magic_free L s"
  using magic_small by (auto simp: magic_free_def list_all_iff)

lemma join_items_free:
  assumes "table_small d" and "python_like L"
  shows "join_items d s = Inr r \<Longrightarrow> magic_free L r"
proof (induction s arbitrary: r)
  case Nil
  then show ?case by simp
next
  case (Cons x s)
  then obtain g r' where g: "dict_get d [x] = Some g" "join_items d s = Inr r'" "r = g @ r'"
    by (auto split: option.splits sum.splits)
  then show ?case using Cons.IH [OF g(2)] dict_get_small [OF assms(1) g(1) assms(2)] by simp
qed

lemma script_ok:
  assumes "python_like L" and "table_small d"
    and "\<forall>c \<in> set p. c < 0x100000" and "\<forall>c \<in> set q. c < 0x100000"
    and "\<forall>c \<in> set p'. c < 0x100000"
  shows "fn_ok L (\<lambda>text. if text = [] then Inr []
      else if list_all (\<lambda>x. dict_has d [x]) text then join_items d text
      else if length text = 1 then Inr (p' @ text)
      else Inr (p @ text @ q))"
  unfolding fn_ok_def
proof (intro allI impI)
  fix s assume s: "magic_free L s"
  have p: "magic_free L p" "magic_free L q" "magic_free L p'"
    using u_free [OF assms(1)] assms(3-5) by auto
  show "\<exists>r. (if s = [] then Inr []
      else if list_all (\<lambda>x. dict_has d [x]) s then join_items d s
      else if length s = 1 then Inr (p' @ s)
      else Inr (p @ s @ q)) = Inr r \<and> magic_free L r"
    using s p join_items_all [of d s] join_items_free [OF assms(2,1), of s]
    by auto
qed

lemma to_superscript_ok: "python_like L \<Longrightarrow> fn_ok L to_superscript"
  using script_ok [of L superscript_ht "u ''^(''" "u '')''" "u ''^''"] tables_small
  unfolding to_superscript_def [abs_def] by (simp add: u_def)

lemma to_subscript_ok: "python_like L \<Longrightarrow> fn_ok L to_subscript"
  using script_ok [of L subscript_ht "u ''_(''" "u '')''" "u ''_''"] tables_small
  unfolding to_subscript_def [abs_def] by (simp add: u_def)

lemma to_superscript_total: "\<exists>r. to_superscript s = Inr r"
  using join_items_all [of superscript_ht s] by (auto simp: to_superscript_def)

lemma to_subscript_total: "\<exists>r. to_subscript s = Inr r"
  using join_items_all [of subscript_ht s] by (auto simp: to_subscript_def)

lemma font_ok:
  assumes "python_like L" and "table_small d"
  shows "fn_ok L (\<lambda>text. Inr (concat (map (get_default d) text)))"
  unfolding fn_ok_def
proof (intro allI impI)
  fix s assume "magic_free L s"
  then have "magic_free L (concat (map (get_default d) s))"
  proof (induction s)
    case Nil
    then show ?case by simp
  next
    case (Cons x s)
    have "magic_free L (get_default d x)"
      using Cons.prems dict_get_small [OF assms(2) _ assms(1), of "[x]"]
      by (auto simp: get_default_def magic_free_Cons split: option.splits)
    then show ?case using Cons by (simp add: magic_free_Cons)
  qed
  then show "\<exists>r. Inr (concat (map (get_default d) s)) = Inr r \<and> magic_free L r" by simp
qed

lemma font_fns_ok:
  assumes "python_like L"
  shows "fn_ok L mathcal_fn" "fn_ok L mathfrak_fn" "fn_ok L mathbb_fn"
  using font_ok [OF assms] tables_small
  unfolding mathcal_fn_def [abs_def] mathfrak_fn_def [abs_def] mathbb_fn_def [abs_def]
  by auto

lemma needs_space_ok: "[] \<notin> set parts \<Longrightarrow> \<exists>b. needs_space L parts v = Inr b"
  using last_in_set [of parts] by (fastforce simp: needs_space_def)

lemma magic_free_strip: "magic_free L s \<Longrightarrow> magic_free L (strip L s)"
  by (rule magic_free_subset [OF _ set_strip])

lemma space_free: "python_like L \<Longrightarrow> magic_free L (u '' '')"
  by (rule u_free) (auto simp: u_def)

lemma tail_total:
  assumes L: "python_like L" and mv: "mv_ok L (magic_vec st)" and parts: "[] \<notin> set parts"
    and fn: "fn = None \<or> (\<exists>g. fn = Some g \<and> fn_ok L g)"
  shows "\<exists>res. expand_group_tail L parts fn v st = Some res \<and>
           (res = Inl IndexError \<or> (\<exists>r. res = Inr (r, st) \<and> magic_free L r \<and> strip L r = r)) \<and>
           (resolved L (magic_vec st) v \<longrightarrow> (\<exists>r. res = Inr (r, st)))"
proof -
  define v1 where "v1 =
        (if startswith v [bs] then
           (case dict_get math_map (strip L (drop 1 v)) of
              None \<Rightarrow>
                if str_isalnum L (strip L (drop 1 v)) then u '' '' @ strip L (drop 1 v) @ u '' ''
                else strip L (drop 1 v)
            | Some mapped \<Rightarrow> mapped)
         else if str_isspace L v \<or> v = u ''&'' then []
         else v)"
  have sub: "set (strip L (drop 1 v)) \<subseteq> set v"
    using set_strip [of L "drop 1 v"] set_drop_subset [of 1 v] by blast
  have r1: "resolved L (magic_vec st) v \<Longrightarrow> resolved L (magic_vec st) v1"
    using resolved_subset [OF _ sub] dict_get_small [OF tables_small(3) _ L]
      magic_free_resolved [OF space_free [OF L]]
    by (auto simp: v1_def resolved_def [of _ _ "[]"] intro: magic_free_resolved split: option.splits)
  have f1: "magic_free L v \<Longrightarrow> magic_free L v1"
    using magic_free_subset [OF _ sub] dict_get_small [OF tables_small(3) _ L] space_free [OF L]
    by (auto simp: v1_def split: option.splits)
  have step2: "\<And>v2. magic_free L v2 \<Longrightarrow>
        \<exists>r. ret_bind (Some (needs_space L parts v2))
              (\<lambda>sp. ret_bind (expand L (magic_vec st) (if sp then u '' '' @ v2 else v2))
                 (\<lambda>v3. Some (Inr (v3, st)))) = Some (Inr (r, st)) \<and> magic_free L r \<and> strip L r = r"
  proof -
    fix v2 assume v2: "magic_free L v2"
    obtain b where b: "needs_space L parts v2 = Inr b" using needs_space_ok [OF parts] by blast
    have "magic_free L (if b then u '' '' @ v2 else v2)" using v2 space_free [OF L] by simp
    from expand_free [OF this] magic_free_strip [OF this]
    show "\<exists>r. ret_bind (Some (needs_space L parts v2))
              (\<lambda>sp. ret_bind (expand L (magic_vec st) (if sp then u '' '' @ v2 else v2))
                 (\<lambda>v3. Some (Inr (v3, st)))) = Some (Inr (r, st)) \<and> magic_free L r \<and> strip L r = r"
      using b strip_idem by (auto simp: ret_bind_def)
  qed
  have unf: "expand_group_tail L parts fn v st =
      ret_bind
           (case fn of
              None \<Rightarrow> Some (Inr v1)
            | Some g \<Rightarrow> ret_bind (expand L (magic_vec st) v1) (\<lambda>x. Some (g x)))
           (\<lambda>v2. ret_bind (Some (needs_space L parts v2))
              (\<lambda>sp. ret_bind (expand L (magic_vec st) (if sp then u '' '' @ v2 else v2))
                 (\<lambda>v3. Some (Inr (v3, st)))))"
    by (simp only: expand_group_tail_def Let_def v1_def)
  show ?thesis
  proof (cases fn)
    case None
    obtain b where b: "needs_space L parts v1 = Inr b" using needs_space_ok [OF parts] by blast
    from expand_total [OF mv, of "if b then u '' '' @ v1 else v1"] obtain res where
      res: "expand L (magic_vec st) (if b then u '' '' @ v1 else v1) = Some res"
        "res = Inl IndexError \<or> (\<exists>r. res = Inr r \<and> magic_free L r \<and> strip L r = r)"
        "resolved L (magic_vec st) (if b then u '' '' @ v1 else v1) \<longrightarrow> (\<exists>r. res = Inr r)"
      by blast
    have "resolved L (magic_vec st) v \<Longrightarrow> resolved L (magic_vec st) (if b then u '' '' @ v1 else v1)"
      using r1 magic_free_resolved [OF space_free [OF L]] by simp
    then show ?thesis
      using res b None unfolding unf by (cases res) (auto simp: ret_bind_def)
  next
    case (Some g)
    then have g: "fn_ok L g" using fn by simp
    from expand_total [OF mv, of v1] obtain res where
      res: "expand L (magic_vec st) v1 = Some res"
        "res = Inl IndexError \<or> (\<exists>r. res = Inr r \<and> magic_free L r \<and> strip L r = r)"
        "resolved L (magic_vec st) v1 \<longrightarrow> (\<exists>r. res = Inr r)"
      by blast
    show ?thesis
    proof (cases res)
      case (Inl e)
      then show ?thesis using res r1 Some unfolding unf by (auto simp: ret_bind_def)
    next
      case (Inr x)
      then have "magic_free L x" using res(2) by auto
      then obtain v2 where v2: "g x = Inr v2" "magic_free L v2" using g by (auto simp: fn_ok_def)
      from step2 [OF v2(2)] show ?thesis
        using res(1) Inr v2(1) Some unfolding unf by (auto simp: ret_bind_def)
    qed
  qed
qed

section \<open>Letters and runs\<close>

lemma run_ok:
  assumes "k < run L f a t i"
  shows "i + k < length t \<and> atom_ok L f a (t ! (i + k))"
proof -
  let ?xs = "drop i t"
  let ?tw = "takeWhile (atom_ok L f a) ?xs"
  have k: "k < length ?tw" using assms by (simp add: run_def)
  have le: "length ?tw \<le> length ?xs" by (rule length_takeWhile_le)
  have "?tw ! k \<in> set ?tw" using k by (rule nth_mem)
  then have "atom_ok L f a (?tw ! k)" by (rule set_takeWhileD [THEN conjunct2])
  moreover have "?tw ! k = ?xs ! k" using k by (rule takeWhile_nth)
  ultimately show ?thesis using k le by simp
qed

lemma no_flags_simps [simp]: "ignorecase no_flags = False" "dotall no_flags = False"
  by (simp_all add: no_flags_def)

section \<open>Membership in the paths of a pattern\<close>

lemma mem_One:
  "(e, c') \<in> set (paths L f (One a) t (i, c)) \<longleftrightarrow>
     c' = c \<and> e = Suc i \<and> i < length t \<and> atom_ok L f a (t ! i)"
  by auto

lemma mem_Seq:
  "(e, c') \<in> set (paths L f (Seq r1 r2) t (i, c)) \<longleftrightarrow>
     (\<exists>k d. (k, d) \<in> set (paths L f r1 t (i, c)) \<and> (e, c') \<in> set (paths L f r2 t (k, d)))"
  by auto

lemma mem_Alt:
  "x \<in> set (paths L f (Alt r1 r2) t s) \<longleftrightarrow> x \<in> set (paths L f r1 t s) \<or> x \<in> set (paths L f r2 t s)"
  by simp

lemma mem_Opt:
  "x \<in> set (paths L f (Opt r) t s) \<longleftrightarrow> x \<in> set (paths L f r t s) \<or> x = s"
  by auto

lemma mem_Star:
  "(e, c') \<in> set (paths L f (Star a) t (i, c)) \<longleftrightarrow> c' = c \<and> i \<le> e \<and> e \<le> i + run L f a t i"
proof -
  have "set (paths L f (Star a) t (i, c)) = (\<lambda>k. (i + k, c)) ` {0..<Suc (run L f a t i)}"
    by (simp del: upt_Suc)
  moreover have "c' = c \<and> i \<le> e \<and> e \<le> i + run L f a t i \<Longrightarrow>
      (e, c') \<in> (\<lambda>k. (i + k, c)) ` {0..<Suc (run L f a t i)}"
    by (rule rev_image_eqI [of "e - i"]) auto
  ultimately show ?thesis
    by (auto simp del: upt_Suc paths.simps)
qed

lemma mem_Plus:
  "(e, c') \<in> set (paths L f (Plus a) t (i, c)) \<longleftrightarrow> c' = c \<and> i < e \<and> e \<le> i + run L f a t i"
proof -
  have "set (paths L f (Plus a) t (i, c)) = (\<lambda>k. (i + k, c)) ` {1..<Suc (run L f a t i)}"
    by (simp del: upt_Suc)
  moreover have "c' = c \<and> i < e \<and> e \<le> i + run L f a t i \<Longrightarrow>
      (e, c') \<in> (\<lambda>k. (i + k, c)) ` {1..<Suc (run L f a t i)}"
    by (rule rev_image_eqI [of "e - i"]) auto
  ultimately show ?thesis
    by (auto simp del: upt_Suc paths.simps)
qed

lemma mem_LazyStar:
  "(e, c') \<in> set (paths L f (LazyStar a) t (i, c)) \<longleftrightarrow> c' = c \<and> i \<le> e \<and> e \<le> i + run L f a t i"
proof -
  have "set (paths L f (LazyStar a) t (i, c)) = (\<lambda>k. (i + k, c)) ` {0..<Suc (run L f a t i)}"
    by (simp del: upt_Suc)
  moreover have "c' = c \<and> i \<le> e \<and> e \<le> i + run L f a t i \<Longrightarrow>
      (e, c') \<in> (\<lambda>k. (i + k, c)) ` {0..<Suc (run L f a t i)}"
    by (rule rev_image_eqI [of "e - i"]) auto
  ultimately show ?thesis
    by (auto simp del: upt_Suc paths.simps)
qed

lemma mem_LazyPlus:
  "(e, c') \<in> set (paths L f (LazyPlus a) t (i, c)) \<longleftrightarrow> c' = c \<and> i < e \<and> e \<le> i + run L f a t i"
proof -
  have "set (paths L f (LazyPlus a) t (i, c)) = (\<lambda>k. (i + k, c)) ` {1..<Suc (run L f a t i)}"
    by (simp del: upt_Suc)
  moreover have "c' = c \<and> i < e \<and> e \<le> i + run L f a t i \<Longrightarrow>
      (e, c') \<in> (\<lambda>k. (i + k, c)) ` {1..<Suc (run L f a t i)}"
    by (rule rev_image_eqI [of "e - i"]) auto
  ultimately show ?thesis
    by (auto simp del: upt_Suc paths.simps)
qed

lemma mem_Group:
  "(e, c') \<in> set (paths L f (Group n r) t (i, c)) \<longleftrightarrow>
     (\<exists>d. (e, d) \<in> set (paths L f r t (i, c)) \<and> c' = (n, i, e) # d)"
  by (force simp: image_iff)

lemma mem_Eos:
  "(e, c') \<in> set (paths L f Eos t (i, c)) \<longleftrightarrow>
     c' = c \<and> e = i \<and> (i = length t \<or> (Suc i = length t \<and> t ! i = 0x0A))"
  by auto

lemma mem_WordB:
  "(e, c') \<in> set (paths L f WordB t (i, c)) \<longleftrightarrow>
     c' = c \<and> e = i \<and> ((0 < i \<and> word_at L t (i - 1)) \<noteq> word_at L t i)"
  by auto

lemma mem_Empty: "x \<in> set (paths L f Empty t s) \<longleftrightarrow> x = s"
  by simp

lemma mem_lits:
  "(e, c') \<in> set (paths L no_flags (lits s) t (i, c)) \<longleftrightarrow>
     c' = c \<and> e = i + length s \<and> startswith (drop i t) (u s)"
  by (auto simp: paths_lits)

declare paths.simps [simp del]

lemmas mem_paths = mem_One mem_Seq mem_Alt mem_Opt mem_Star mem_Plus mem_LazyStar mem_LazyPlus
  mem_Group mem_Eos mem_WordB mem_Empty

lemma atom_simps:
  "atom_ok L no_flags letters x = letter x"
  "atom_ok L no_flags sp x = isspace L x"
  "atom_ok L no_flags (In [CWord]) x = isword L x"
  "atom_ok L no_flags (In [CDigit]) x = isdecimal L x"
  "atom_ok L no_flags Any x = (x \<noteq> 0x0A)"
  "atom_ok L no_flags (Chr c) x = (x = c)"
  by (auto simp: letters_def letter_def sp_def no_flags_def)

lemma run_all:
  assumes "i < e" and "e \<le> i + run L f a t i"
  shows "e \<le> length t \<and> (\<forall>x. i \<le> x \<and> x < e \<longrightarrow> atom_ok L f a (t ! x))"
proof -
  have "\<And>x. i \<le> x \<Longrightarrow> x < e \<Longrightarrow> x < length t \<and> atom_ok L f a (t ! x)"
  proof -
    fix x assume "i \<le> x" "x < e"
    then have "x - i < run L f a t i" using assms by simp
    from run_ok [OF this] show "x < length t \<and> atom_ok L f a (t ! x)" using \<open>i \<le> x\<close> by simp
  qed
  moreover have "e - 1 < e" "i \<le> e - 1" using assms by simp_all
  ultimately show ?thesis by (metis Suc_pred' assms(1) less_eq_Suc_le less_nat_zero_code not_gr_zero)
qed

text \<open>The argument pattern \<^verbatim>\<open>\\[a-zA-Z]+|\\.|.\<close>.\<close>

lemma arg_paths:
  assumes "(e, c') \<in> set (paths L no_flags arg_re t (s, c))"
  shows "c' = c \<and> s < e \<and> e \<le> length t \<and>
         (e \<le> s + 2 \<or> (t ! s = bs \<and> (\<forall>x. s < x \<and> x < e \<longrightarrow> letter (t ! x))))"
proof -
  from assms consider
      (cmd) "c' = c" "s < length t" "t ! s = bs" "Suc s < e" "e \<le> Suc s + run L no_flags letters t (Suc s)"
    | (esc) "c' = c" "e = s + 2" "Suc s < length t"
    | (chr) "c' = c" "e = s + 1" "s < length t"
    by (auto simp: arg_re_def alts_def mem_paths atom_simps)
  then show ?thesis
  proof cases
    case cmd
    from run_all [OF cmd(4,5)] show ?thesis using cmd by (auto simp: atom_simps)
  next
    case esc
    then show ?thesis by simp
  next
    case chr
    then show ?thesis by simp
  qed
qed

section \<open>Runs, arguments and fractions as positions\<close>

lemma run_ge:
  assumes "i + k \<le> length t" and "\<forall>x. i \<le> x \<and> x < i + k \<longrightarrow> atom_ok L f a (t ! x)"
  shows "k \<le> run L f a t i"
proof (rule ccontr)
  let ?xs = "drop i t"
  let ?n = "length (takeWhile (atom_ok L f a) ?xs)"
  assume "\<not> k \<le> run L f a t i"
  then have lt: "?n < k" by (simp add: run_def)
  then have "?n < length ?xs" using assms(1) by simp
  then have "\<not> atom_ok L f a (?xs ! ?n)" by (rule nth_length_takeWhile)
  moreover have "?xs ! ?n = t ! (i + ?n)" using \<open>?n < length ?xs\<close> by simp
  ultimately show False using assms(2) lt by simp
qed

text \<open>A run of characters of one class, from \<open>i\<close> up to \<open>e\<close>.\<close>

lemma run_iff: "(i \<le> e \<and> e \<le> i + run L no_flags a t i) = span_of L a t i e"
proof
  assume h: "i \<le> e \<and> e \<le> i + run L no_flags a t i"
  have "\<And>x. i \<le> x \<and> x < e \<Longrightarrow> x < length t \<and> atom_ok L no_flags a (t ! x)"
  proof -
    fix x assume "i \<le> x \<and> x < e"
    then have "x - i < run L no_flags a t i" using h by auto
    from run_ok [OF this] show "x < length t \<and> atom_ok L no_flags a (t ! x)"
      using \<open>i \<le> x \<and> x < e\<close> by simp
  qed
  then show "span_of L a t i e" using h by (simp add: span_of_def)
next
  assume s: "span_of L a t i e"
  show "i \<le> e \<and> e \<le> i + run L no_flags a t i"
  proof (cases "i = e")
    case True
    then show ?thesis by simp
  next
    case False
    then have lt: "i < e" using s by (simp add: span_of_def)
    then have "e - 1 < length t" using s by (simp add: span_of_def)
    then have "i + (e - i) \<le> length t" using lt by simp
    moreover have "\<forall>x. i \<le> x \<and> x < i + (e - i) \<longrightarrow> atom_ok L no_flags a (t ! x)"
      using s lt by (simp add: span_of_def)
    ultimately have "e - i \<le> run L no_flags a t i" by (rule run_ge)
    then show ?thesis using lt by simp
  qed
qed

lemma span_of_bound: "span_of L a t i e \<Longrightarrow> i \<le> length t \<Longrightarrow> e \<le> length t"
proof -
  assume s: "span_of L a t i e" and i: "i \<le> length t"
  show "e \<le> length t"
  proof (cases "i = e")
    case True
    then show ?thesis using i by simp
  next
    case False
    then have "i \<le> e - 1 \<and> e - 1 < e" using s by (auto simp: span_of_def)
    then have "e - 1 < length t" using s unfolding span_of_def by blast
    then show ?thesis by simp
  qed
qed

lemma slice_nth: "x < j - p \<Longrightarrow> j \<le> length t \<Longrightarrow> slice t p j ! x = t ! (p + x)"
  by (simp add: slice_def)

lemma length_slice: "j \<le> length t \<Longrightarrow> length (slice t p j) = j - p"
  by (simp add: slice_def)

lemma span_of_slice:
  assumes "span_of L a t i e" and "p \<le> i" and "e \<le> j" and "j \<le> length t"
  shows "span_of L a (slice t p j) (i - p) (e - p)"
proof -
  have "\<And>x. i - p \<le> x \<and> x < e - p \<Longrightarrow>
      x < length (slice t p j) \<and> atom_ok L no_flags a (slice t p j ! x)"
  proof -
    fix x assume x: "i - p \<le> x \<and> x < e - p"
    then have "i \<le> x + p \<and> x + p < e" using assms(2) by auto
    then have "atom_ok L no_flags a (t ! (x + p))" using assms(1) by (simp add: span_of_def)
    moreover have xj: "x < j - p" using x assms(3) by auto
    then have "slice t p j ! x = t ! (p + x)" using assms(4) by (rule slice_nth)
    moreover have "x < length (slice t p j)" using xj assms(4) by (simp add: length_slice)
    ultimately show "x < length (slice t p j) \<and> atom_ok L no_flags a (slice t p j ! x)"
      by (simp add: add.commute)
  qed
  then show ?thesis using assms by (auto simp: span_of_def)
qed

lemma mem_spans:
  "(e, c') \<in> set (paths L no_flags (Star a) t (i, c)) \<longleftrightarrow> c' = c \<and> span_of L a t i e"
  "(e, c') \<in> set (paths L no_flags (Plus a) t (i, c)) \<longleftrightarrow> c' = c \<and> i < e \<and> span_of L a t i e"
  "(e, c') \<in> set (paths L no_flags (LazyStar a) t (i, c)) \<longleftrightarrow> c' = c \<and> span_of L a t i e"
  "(e, c') \<in> set (paths L no_flags (LazyPlus a) t (i, c)) \<longleftrightarrow> c' = c \<and> i < e \<and> span_of L a t i e"
  using run_iff [of i e L a t]
  by (auto simp: mem_Star mem_Plus mem_LazyStar mem_LazyPlus)

lemmas mem_nf = mem_One mem_Seq mem_Alt mem_Opt mem_spans mem_Group mem_Eos mem_WordB mem_Empty
  mem_lits

text \<open>The paths of the argument pattern, character by character.\<close>

lemma arg_paths_iff:
  "(e, c') \<in> set (paths L no_flags arg_re t (s, c)) \<longleftrightarrow> c' = c \<and> arg_span t s e"
proof -
  have 1: "Suc s < e \<Longrightarrow> span_of L letters t (Suc s) e =
     (e \<le> length t \<and> (\<forall>x. s < x \<and> x < e \<longrightarrow> letter (t ! x)))"
  proof
    assume lt: "Suc s < e" and sp: "span_of L letters t (Suc s) e"
    have "Suc s \<le> e - 1 \<and> e - 1 < e" using lt by auto
    then have "e - 1 < length t" using sp unfolding span_of_def by blast
    then have "e \<le> length t" by simp
    then show "e \<le> length t \<and> (\<forall>x. s < x \<and> x < e \<longrightarrow> letter (t ! x))"
      using sp by (auto simp: span_of_def atom_simps Suc_le_eq)
  next
    assume "Suc s < e" and "e \<le> length t \<and> (\<forall>x. s < x \<and> x < e \<longrightarrow> letter (t ! x))"
    then show "span_of L letters t (Suc s) e"
      by (auto simp: span_of_def atom_simps Suc_le_eq)
  qed
  show ?thesis
    using 1 by (auto simp: arg_re_def alts_def mem_nf atom_simps arg_span_def)
qed

lemma arg_span_slice:
  assumes "arg_span t s e" and "p \<le> s" and "e \<le> j" and "j \<le> length t"
  shows "arg_span (slice t p j) (s - p) (e - p)"
proof -
  have n: "\<And>x. p \<le> x \<Longrightarrow> x < j \<Longrightarrow> slice t p j ! (x - p) = t ! x"
    using assms(4) slice_nth [of _ j p t] by (metis add_diff_inverse_nat diff_less_mono leD)
  have l: "length (slice t p j) = j - p" using assms(4) by (rule length_slice)
  from assms(1) consider
      (cmd) "s < length t" "t ! s = bs" "Suc s < e" "e \<le> length t" "\<forall>x. s < x \<and> x < e \<longrightarrow> letter (t ! x)"
    | (esc) "e = s + 2" "Suc s < length t" "t ! s = bs" "t ! Suc s \<noteq> 0x0A"
    | (chr) "e = s + 1" "s < length t" "t ! s \<noteq> 0x0A"
    unfolding arg_span_def by blast
  then show ?thesis
  proof cases
    case cmd
    have "\<forall>x. s - p < x \<and> x < e - p \<longrightarrow> letter (slice t p j ! x)"
    proof (intro allI impI)
      fix x assume x: "s - p < x \<and> x < e - p"
      then have "slice t p j ! ((x + p) - p) = t ! (x + p)" using assms(2,3) by (intro n) auto
      moreover have "s < x + p \<and> x + p < e" using x assms(2) by auto
      then have "letter (t ! (x + p))" using cmd(5) by blast
      ultimately show "letter (slice t p j ! x)" by simp
    qed
    moreover have "slice t p j ! (s - p) = bs" using n [of s] assms(2,3) cmd by simp
    ultimately show ?thesis using cmd assms l unfolding arg_span_def by (intro disjI1) auto
  next
    case esc
    have "slice t p j ! (s - p) = bs" using n [of s] assms(2,3) esc by simp
    moreover have "slice t p j ! Suc (s - p) \<noteq> 0x0A"
      using n [of "Suc s"] assms(2,3) esc by (simp add: Suc_diff_le)
    ultimately show ?thesis using esc assms l unfolding arg_span_def
      by (intro disjI2 disjI1) auto
  next
    case chr
    have "slice t p j ! (s - p) \<noteq> 0x0A" using n [of s] assms(2,3) chr by simp
    then show ?thesis using chr assms l unfolding arg_span_def by (intro disjI2) auto
  qed
qed

text \<open>The paths of \<^verbatim>\<open>\\frac\s*(A)\s*(A)\<close>.\<close>

lemma arg_span_bounds: "arg_span t s e \<Longrightarrow> s < e \<and> e \<le> length t"
  by (auto simp: arg_span_def)

lemma frac_call_iff:
  "(j, c) \<in> set (paths L no_flags frac_call_re t (p, c0)) \<longleftrightarrow>
     (\<exists>k1 e1 k2. c = (2, k2, j) # (1, k1, e1) # c0 \<and> frac_shape L t p k1 e1 k2 j)"
  by (auto simp: frac_call_re_def seqs_def mem_nf arg_paths_iff atom_simps frac_shape_def
        numeral_eq_Suc)

lemma frac_re_iff:
  "(j, c) \<in> set (paths L no_flags frac_re t (p, c0)) \<longleftrightarrow>
     (\<exists>k1 e1 k2. c = (2, k2, j) # (1, k1, e1) # c0 \<and> frac_shape L t p k1 e1 k2 j \<and>
        (j = length t \<or> (Suc j = length t \<and> t ! j = 0x0A)))"
  by (auto simp: frac_re_def seqs_def mem_nf arg_paths_iff atom_simps frac_shape_def
        numeral_eq_Suc)

section \<open>Shapes of the guards\<close>

lemma matches_iff: "matches L r v \<longleftrightarrow> (\<exists>j c. (j, c) \<in> set (paths L no_flags r v (0, [])))"
proof -
  have "paths L no_flags r v (0, []) \<noteq> [] \<longleftrightarrow> (\<exists>x. x \<in> set (paths L no_flags r v (0, [])))"
    by (cases "paths L no_flags r v (0, [])") auto
  then show ?thesis
    by (auto simp: matches_def re_match_def match_at_def split: list.splits)
qed

lemma re_match_Some:
  "re_match L f r v = Some m \<Longrightarrow>
     m_start m = 0 \<and> (m_end m, m_caps m) \<in> set (paths L f r v (0, []))"
  by (auto simp: re_match_def match_at_def split: list.splits)

lemma re_match_None: "re_match L f r v = None \<longleftrightarrow> paths L f r v (0, []) = []"
  by (auto simp: re_match_def match_at_def split: list.splits)

lemma startswith_nth:
  "startswith (drop i t) (a # s) \<longleftrightarrow>
     i + length (a # s) \<le> length t \<and> (\<forall>k < length (a # s). t ! (i + k) = (a # s) ! k)"
proof (induction s arbitrary: i a)
  case Nil
  have "startswith (drop (Suc i) t) []" by (simp add: startswith_def)
  then show ?case using startswith_drop_Cons [of i t a "[]"] by auto
next
  case (Cons b s)
  have "(\<forall>k < length (a # b # s). t ! (i + k) = (a # b # s) ! k) \<longleftrightarrow>
        t ! i = a \<and> (\<forall>k < length (b # s). t ! (Suc i + k) = (b # s) ! k)"
    (is "?l \<longleftrightarrow> ?r")
  proof
    assume l: ?l
    then have "t ! (i + 0) = (a # b # s) ! 0" by blast
    moreover have "\<And>k. k < length (b # s) \<Longrightarrow> t ! (Suc i + k) = (b # s) ! k"
    proof -
      fix k assume "k < length (b # s)"
      then have "Suc k < length (a # b # s)" by simp
      then have "t ! (i + Suc k) = (a # b # s) ! Suc k" using l by blast
      then show "t ! (Suc i + k) = (b # s) ! k" by simp
    qed
    ultimately show ?r by simp
  next
    assume r: ?r
    show ?l
    proof (intro allI impI)
      fix k assume k: "k < length (a # b # s)"
      show "t ! (i + k) = (a # b # s) ! k"
      proof (cases k)
        case 0
        then show ?thesis using r by simp
      next
        case (Suc n)
        then have "n < length (b # s)" using k by simp
        then have "t ! (Suc i + n) = (b # s) ! n" using r by blast
        then show ?thesis using Suc by simp
      qed
    qed
  qed
  then show ?case
    unfolding startswith_drop_Cons [of i t a "b # s"] Cons [of "Suc i" b] by auto
qed

lemma sqrt_index_shape:
  "matches L sqrt_index_re v \<Longrightarrow>
     5 < length v \<and> v ! 0 = bs \<and> v ! 1 = 0x73 \<and> v ! 5 = 0x5B"
  using startswith_nth [of 1 v "0x73" "u ''qrt''"]
  by (auto simp: matches_iff sqrt_index_re_def seqs_def mem_nf atom_simps u_def numeral_eq_Suc)

lemma frac_guard_shape:
  "matches L (cmd_guard ''frac'') v \<Longrightarrow> 4 < length v \<and> v ! 0 = bs \<and> v ! 1 = 0x66"
  using startswith_nth [of 1 v "0x66" "u ''rac''"]
  by (auto simp: matches_iff cmd_guard_def seqs_def alts_def mem_nf atom_simps u_def numeral_eq_Suc)

lemma strip_single:
  assumes "strip L x = [c]"
  shows "\<forall>y \<in> set x. y = c \<or> isspace L y"
proof -
  let ?d = "dropWhile (isspace L) x"
  have "rev (dropWhile (isspace L) (rev ?d)) = [c]" using assms by (simp add: strip_def)
  then have e: "dropWhile (isspace L) (rev ?d) = [c]" by (metis rev_singleton_conv)
  have "rev ?d = takeWhile (isspace L) (rev ?d) @ dropWhile (isspace L) (rev ?d)" by simp
  then have "set ?d = set (takeWhile (isspace L) (rev ?d)) \<union> {c}"
    using e by (metis Un_insert_right list.simps(15) set_append set_rev sup_bot.right_neutral empty_set)
  then have d: "\<forall>y \<in> set ?d. y = c \<or> isspace L y" by (auto dest: set_takeWhileD)
  have "x = takeWhile (isspace L) x @ ?d" by simp
  then have "set x = set (takeWhile (isspace L) x) \<union> set ?d" by (metis set_append)
  then show ?thesis using d by (auto dest: set_takeWhileD)
qed

lemma ascii_facts:
  assumes "python_like L"
  shows "\<not> isspace L bs" "\<not> isword L bs" "\<not> isspace L 0x5B" "\<not> isword L 0x5B" "\<not> isspace L 0x5D"
    "\<not> isspace L 0x2F" "\<not> isspace L 0x28" "\<not> isspace L 0x29" "isspace L 0x20"
  using assms by (auto simp: python_like_def isword_def bs_def)

lemma letter_small: "letter c \<Longrightarrow> c < 0x100000 \<and> c \<noteq> 0x5B \<and> c \<noteq> bs"
  by (auto simp: letter_def bs_def)

section \<open>Arguments of a fraction are tame\<close>

lemma set_slice: "j \<le> length t \<Longrightarrow> set (slice t p j) = {t ! x | x. p \<le> x \<and> x < j}"
proof (intro equalityI subsetI)
  fix c assume j: "j \<le> length t" and "c \<in> set (slice t p j)"
  then obtain k where k: "k < length (slice t p j)" "c = slice t p j ! k"
    by (auto simp: in_set_conv_nth)
  then have "k < j - p" using j by (simp add: length_slice)
  then have "c = t ! (p + k) \<and> p \<le> p + k \<and> p + k < j" using k j by (simp add: slice_nth)
  then show "c \<in> {t ! x | x. p \<le> x \<and> x < j}" by blast
next
  fix c assume j: "j \<le> length t" and "c \<in> {t ! x | x. p \<le> x \<and> x < j}"
  then obtain x where x: "c = t ! x" "p \<le> x" "x < j" by blast
  then have "x - p < j - p" by auto
  then have "slice t p j ! (x - p) = t ! (p + (x - p))" "x - p < length (slice t p j)"
    using j by (simp_all add: slice_nth length_slice)
  then show "c \<in> set (slice t p j)" using x by (metis le_add_diff_inverse nth_mem)
qed

lemma frac_shape_bounds:
  "frac_shape L t p k1 e1 k2 j \<Longrightarrow> p + 5 \<le> k1 \<and> k1 < e1 \<and> e1 \<le> k2 \<and> k2 < j \<and> j \<le> length t"
  by (auto simp: frac_shape_def span_of_def dest: arg_span_bounds)

lemma frac_shape_slice:
  assumes "frac_shape L t p k1 e1 k2 j"
  shows "frac_shape L (slice t p j) 0 (k1 - p) (e1 - p) (k2 - p) (j - p)"
proof -
  note b = frac_shape_bounds [OF assms]
  let ?w = "slice t p j"
  have len: "length ?w = j - p" using b by (simp add: length_slice)
  have nth: "\<And>x. x < j - p \<Longrightarrow> ?w ! x = t ! (p + x)" using b by (simp add: slice_nth)
  have f: "Suc p + 4 \<le> length t \<and> (\<forall>k < 4. t ! (Suc p + k) = u ''frac'' ! k)"
    using assms startswith_nth [of "Suc p" t "0x66" "u ''rac''"]
    by (simp add: frac_shape_def u_def)
  have "\<forall>k < 4. ?w ! (1 + k) = u ''frac'' ! k"
  proof (intro allI impI)
    fix k :: nat assume k: "k < 4"
    then have "1 + k < j - p" using b by auto
    then have "?w ! (1 + k) = t ! (p + (1 + k))" by (rule nth)
    then show "?w ! (1 + k) = u ''frac'' ! k" using f k by simp
  qed
  moreover have "Suc (Suc (Suc (Suc (Suc 0)))) \<le> j - p" using b by auto
  ultimately have 1: "startswith (drop (Suc 0) ?w) (u ''frac'')"
    using startswith_nth [of 1 ?w "0x66" "u ''rac''"] len by (simp add: u_def)
  have 2: "?w ! 0 = bs" using nth [of 0] assms b by (simp add: frac_shape_def)
  have 3: "span_of L sp ?w (0 + 5) (k1 - p)"
    using span_of_slice [of L sp t "p + 5" k1 p j] assms b by (simp add: frac_shape_def)
  have 4: "arg_span ?w (k1 - p) (e1 - p)"
    using arg_span_slice [of t k1 e1 p j] assms b by (simp add: frac_shape_def)
  have 5: "span_of L sp ?w (e1 - p) (k2 - p)"
    using span_of_slice [of L sp t e1 k2 p j] assms b by (simp add: frac_shape_def)
  have 6: "arg_span ?w (k2 - p) (j - p)"
    using arg_span_slice [of t k2 j p j] assms b by (simp add: frac_shape_def)
  show ?thesis unfolding frac_shape_def using 1 2 3 4 5 6 len b by simp
qed

lemma frac_call_matches:
  assumes "(j, c) \<in> set (paths L no_flags frac_call_re t (p, c0))"
  shows "re_match L no_flags frac_re (slice t p j) \<noteq> None"
proof -
  from assms obtain k1 e1 k2 where s: "frac_shape L t p k1 e1 k2 j"
    by (auto simp: frac_call_iff)
  note b = frac_shape_bounds [OF s]
  let ?w = "slice t p j"
  have "length ?w = j - p" using b by (simp add: length_slice)
  then have "(j - p, (2, k2 - p, j - p) # (1, k1 - p, e1 - p) # []) \<in> set (paths L no_flags frac_re ?w (0, []))"
    using frac_shape_slice [OF s] by (subst frac_re_iff) auto
  then show ?thesis by (auto simp: re_match_None)
qed

lemma frac_groups:
  assumes "re_match L no_flags frac_re v = Some m"
  shows "\<exists>k1 e1 k2 j. group v m 1 = Some (slice v k1 e1) \<and> group v m 2 = Some (slice v k2 j) \<and>
           arg_span v k1 e1 \<and> arg_span v k2 j \<and> 5 \<le> k1"
proof -
  from re_match_Some [OF assms] obtain k1 e1 k2 where
    s: "m_caps m = (2, k2, m_end m) # (1, k1, e1) # []" "frac_shape L v 0 k1 e1 k2 (m_end m)"
    by (auto simp: frac_re_iff)
  have "group v m 1 = Some (slice v k1 e1)" "group v m 2 = Some (slice v k2 (m_end m))"
    using s(1) by (simp_all add: group_def)
  then show ?thesis using s(2) frac_shape_bounds [OF s(2)] by (auto simp: frac_shape_def)
qed

lemma plain_tame:
  assumes L: "python_like L" and "\<forall>c \<in> set a. c = bs \<or> letter c"
  shows "tame L (strip L a)"
proof -
  let ?w = "strip L a"
  have p: "\<forall>c \<in> set ?w. c = bs \<or> letter c" using assms(2) set_strip [of L a] by blast
  then have "\<forall>c \<in> set ?w. c < 0x100000" using letter_small by (auto simp: bs_def)
  then have "magic_free L ?w" using u_free [OF L] by blast
  moreover have "\<not> matches L sqrt_index_re ?w"
  proof
    assume "matches L sqrt_index_re ?w"
    then have "5 < length ?w" "?w ! 5 = 0x5B" using sqrt_index_shape by blast+
    then have "(0x5B::int) = bs \<or> letter 0x5B" using p nth_mem by metis
    then show False by (simp add: bs_def letter_def)
  qed
  ultimately show ?thesis by (simp add: tame_def)
qed

lemma short_tame:
  assumes "length a \<le> 2"
  shows "tame L (strip L a)"
proof -
  have "length (strip L a) \<le> 2" using assms length_strip [of L a] by simp
  then have "\<not> matches L sqrt_index_re (strip L a)" "\<not> matches L (cmd_guard ''frac'') (strip L a)"
    using sqrt_index_shape [of L "strip L a"] frac_guard_shape [of L "strip L a"] by auto
  then show ?thesis by (simp add: tame_def)
qed

lemma arg_tame:
  assumes L: "python_like L" and a: "arg_span v s e"
  shows "tame L (strip L (slice v s e))"
proof -
  have e: "e \<le> length v" using arg_span_bounds [OF a] by simp
  from a consider
      (cmd) "s < length v" "v ! s = bs" "\<forall>x. s < x \<and> x < e \<longrightarrow> letter (v ! x)"
    | (short) "e \<le> s + 2"
    unfolding arg_span_def by auto
  then show ?thesis
  proof cases
    case cmd
    have "\<forall>c \<in> set (slice v s e). c = bs \<or> letter c"
    proof
      fix c assume "c \<in> set (slice v s e)"
      then obtain x where "c = v ! x" "s \<le> x" "x < e" using set_slice [OF e, of s] by auto
      then show "c = bs \<or> letter c" using cmd by (cases "x = s") auto
    qed
    then show ?thesis by (rule plain_tame [OF L])
  next
    case short
    then have "length (slice v s e) \<le> 2" using e by (simp add: length_slice)
    then show ?thesis by (rule short_tame)
  qed
qed

section \<open>Tokens are tame\<close>

lemma final_iff:
  "(e, c') \<in> set (paths L no_flags final_re t (s, c)) \<longleftrightarrow> c' = c \<and> final_span L t s e"
  by (auto simp: final_re_def seqs_def alts_def mem_nf atom_simps final_span_def)

lemma final_span_lt: "final_span L t s e \<Longrightarrow> s < e"
  by (auto simp: final_span_def span_of_def)

lemma mem_lits_first:
  assumes "(e, c') \<in> set (paths L no_flags (lits (a # s)) t (i, c))"
  shows "i < length t \<and> t ! i = of_char a \<and> e = i + length (a # s) \<and> c' = c"
proof -
  have "startswith (drop i t) (of_char a # u s)" "e = i + length (a # s)" "c' = c"
    using assms by (simp_all add: mem_lits u_def)
  then show ?thesis using startswith_drop_Cons [of i t "of_char a" "u s"] by simp
qed

lemma prefix_shape:
  assumes "(e, c') \<in> set (paths L no_flags prefix_re t (s, c))"
  shows "Suc s < length t \<and> t ! s = bs \<and>
         (t ! Suc s \<in> {0x6D, 0x74, 0x62, 0x65} \<or>
          (t ! Suc s = 0x73 \<and> (e = s + 5 \<or> (s + 8 \<le> e \<and> e \<le> length t \<and> t ! (e - 1) = 0x5D))))"
proof -
  let ?P = "seqs [One (Chr bs),
                Group 4 (alts (lits ''mathcal'')
                  [lits ''mathfrak'', lits ''mathbb'', lits ''text'', lits ''begin'', lits ''end'']),
                WordB, Star sp]"
  let ?S = "seqs [One (Chr bs), lits ''sqrt'', WordB,
                Opt (Group 5 (seqs [One (Chr 0x5B), Plus (In [CDigit]), One (Chr 0x5D)]))]"
  from assms consider (P) "(e, c') \<in> set (paths L no_flags ?P t (s, c))"
    | (S) "(e, c') \<in> set (paths L no_flags ?S t (s, c))"
    by (auto simp: prefix_re_def mem_Alt)
  then show ?thesis
  proof cases
    case P
    then obtain k d where 1: "s < length t" "t ! s = bs"
      and 2: "(k, d) \<in> set (paths L no_flags (alts (lits ''mathcal'')
                  [lits ''mathfrak'', lits ''mathbb'', lits ''text'', lits ''begin'', lits ''end''])
                  t (Suc s, c))"
      by (auto simp: seqs_def mem_One mem_Seq mem_Group atom_simps)
    from 2 have "Suc s < length t \<and> t ! Suc s \<in> {0x6D, 0x74, 0x62, 0x65}"
      by (auto simp: alts_def mem_Alt dest!: mem_lits_first)
    then show ?thesis using 1 by simp
  next
    case S
    then obtain k d where 1: "s < length t" "t ! s = bs"
      and 2: "(k, d) \<in> set (paths L no_flags (lits ''sqrt'') t (Suc s, c))"
      and 3: "(e, c') \<in> set (paths L no_flags
                (Opt (Group 5 (seqs [One (Chr 0x5B), Plus (In [CDigit]), One (Chr 0x5D)]))) t (k, d))"
      by (auto simp: seqs_def mem_One mem_Seq mem_WordB mem_Empty atom_simps)
    from mem_lits_first [OF 2] have 4: "Suc s < length t" "t ! Suc s = 0x73" "k = s + 5" by simp_all
    from 3 have "e = k \<or> (k + 3 \<le> e \<and> e \<le> length t \<and> t ! (e - 1) = 0x5D)"
      by (auto simp: seqs_def mem_One mem_Seq mem_Opt mem_Group mem_Empty mem_spans atom_simps)
    then show ?thesis using 1 4 by auto
  qed
qed

lemma command_shape:
  assumes "(j, c) \<in> set (paths L no_flags command_re t (q, c0))"
  shows "\<exists>k k'. ((\<exists>e d. (k, d) \<in> set (paths L no_flags prefix_re t (q, e))) \<or> k = q) \<and>
           ((k' = Suc k \<and> k < length t \<and> (t ! k = 0x5F \<or> t ! k = 0x5E)) \<or> k' = k) \<and>
           final_span L t k' j"
proof -
  from assms obtain k d k' d' where
    1: "(k, d) \<in> set (paths L no_flags (Opt (Group 3 prefix_re)) t (q, c0))"
    and 2: "(k', d') \<in> set (paths L no_flags (Opt (One (In [CChr 0x5F, CChr 0x5E]))) t (k, d))"
    and 3: "(j, c) \<in> set (paths L no_flags (Group 6 final_re) t (k', d'))"
    by (auto simp: command_re_def seqs_def mem_Seq mem_Empty)
  from 1 have a: "(\<exists>e d. (k, d) \<in> set (paths L no_flags prefix_re t (q, e))) \<or> k = q"
    by (auto simp: mem_Opt mem_Group)
  from 2 have b: "(k' = Suc k \<and> k < length t \<and> (t ! k = 0x5F \<or> t ! k = 0x5E)) \<or> k' = k"
    by (auto simp: mem_Opt mem_One no_flags_def)
  from 3 have "final_span L t k' j"
    by (auto simp: mem_Group final_iff)
  then show ?thesis using a b by blast
qed

lemma token_tame:
  assumes L: "python_like L" and p: "(j, c) \<in> set (paths L no_flags token_re t (q, []))"
    and q: "q \<le> length t"
  shows "tame L (slice t q j)"
proof -
  let ?w = "slice t q j"
  have j: "q \<le> j" "j \<le> length t" using paths_bounds [OF p q] by auto
  have len: "length ?w = j - q" using j by (simp add: length_slice)
  have nth: "\<And>x. x < j - q \<Longrightarrow> ?w ! x = t ! (q + x)" using j by (simp add: slice_nth)
  note A = ascii_facts [OF L]
  from p consider (ws) "(j, c) \<in> set (paths L no_flags (Plus sp) t (q, []))"
    | (frac) "(j, c) \<in> set (paths L no_flags frac_call_re t (q, []))"
    | (cmd) "(j, c) \<in> set (paths L no_flags command_re t (q, []))"
    by (auto simp: token_re_def alts_def mem_Alt)
  then show ?thesis
  proof cases
    case ws
    then have "q < j" "isspace L (t ! q)" by (auto simp: mem_spans span_of_def atom_simps)
    then have "?w ! 0 \<noteq> bs" using nth [of 0] A by auto
    then show ?thesis
      using sqrt_index_shape [of L ?w] frac_guard_shape [of L ?w] by (auto simp: tame_def)
  next
    case frac
    have m: "re_match L no_flags frac_re ?w \<noteq> None" using frac_call_matches [OF frac] .
    from frac obtain k1 e1 k2 where s: "frac_shape L t q k1 e1 k2 j" by (auto simp: frac_call_iff)
    have "t ! Suc q = 0x66"
      using s startswith_drop_Cons [of "Suc q" t "0x66" "u ''rac''"] by (simp add: frac_shape_def u_def)
    moreover have "1 < j - q" using frac_shape_bounds [OF s] by auto
    ultimately have "?w ! 1 = 0x66" using nth [of 1] by simp
    then have "\<not> matches L sqrt_index_re ?w" using sqrt_index_shape [of L ?w] by auto
    then show ?thesis using m by (auto simp: tame_def)
  next
    case cmd
    from command_shape [OF cmd] obtain k k' where
      k: "(\<exists>e d. (k, d) \<in> set (paths L no_flags prefix_re t (q, e))) \<or> k = q"
      and k': "(k' = Suc k \<and> k < length t \<and> (t ! k = 0x5F \<or> t ! k = 0x5E)) \<or> k' = k"
      and f: "final_span L t k' j"
      by blast
    have part1: "matches L (cmd_guard ''frac'') ?w \<Longrightarrow> magic_free L ?w"
    proof -
      assume "matches L (cmd_guard ''frac'') ?w"
      from frac_guard_shape [OF this] have g: "q + 5 \<le> j" "t ! q = bs" "t ! Suc q = 0x66"
        using len nth [of 0] nth [of 1] by auto
      have kq: "k = q" using k g prefix_shape [of k _ L t q] by auto
      have k'q: "k' = q" using k' kq g by (auto simp: bs_def)
      from f obtain m where m: "Suc q < m" "span_of L letters t (Suc q) m" "span_of L sp t m j"
        using g A unfolding final_span_def k'q by (auto simp: span_of_def atom_simps)
      have "\<forall>x. q \<le> x \<and> x < j \<longrightarrow> \<not> is_magic L (t ! x)"
      proof (intro allI impI)
        fix x assume x: "q \<le> x \<and> x < j"
        consider "x = q" | "Suc q \<le> x \<and> x < m" | "m \<le> x \<and> x < j" using x by linarith
        then show "\<not> is_magic L (t ! x)"
        proof cases
          case 1
          then show ?thesis using g magic_small [OF L, of bs] by (simp add: bs_def)
        next
          case 2
          then have "letter (t ! x)" using m(2) by (simp add: span_of_def atom_simps)
          then show ?thesis using letter_small magic_small [OF L] by blast
        next
          case 3
          then have "isspace L (t ! x)" using m(3) by (simp add: span_of_def atom_simps)
          then show ?thesis using L by (auto simp: python_like_def)
        qed
      qed
      then show "magic_free L ?w" using set_slice [OF j(2), of q] by (auto simp: magic_free_def list_all_iff)
    qed
    have part2: "matches L sqrt_index_re ?w \<Longrightarrow> strip L (drop 6 (butlast ?w)) \<noteq> u ''3''"
    proof -
      assume "matches L sqrt_index_re ?w"
      from sqrt_index_shape [OF this] have g: "q + 6 \<le> j" "t ! q = bs" "t ! Suc q = 0x73" "t ! (q + 5) = 0x5B"
        using len nth [of 0] nth [of 1] nth [of 5] by auto
      have k'k: "k' = k \<or> (k' = Suc k \<and> k \<noteq> q \<and> k \<noteq> q + 5)" using k' g by (auto simp: bs_def)
      from k consider (none) "k = q" | (bare) "k = q + 5" | (index) "q + 8 \<le> k" "k \<le> length t" "t ! (k - 1) = 0x5D"
        using prefix_shape [of k _ L t q] g by auto
      then show ?thesis
      proof cases
        case none
        then have k'q: "k' = q" using k'k by auto
        from f obtain m where m: "Suc q < m" "span_of L letters t (Suc q) m" "span_of L sp t m j"
          using g A unfolding final_span_def k'q by (auto simp: span_of_def atom_simps)
        have "letter (t ! (q + 5)) \<or> isspace L (t ! (q + 5))"
        proof (cases "q + 5 < m")
          case True
          then have "Suc q \<le> q + 5 \<and> q + 5 < m" by simp
          then have "atom_ok L no_flags letters (t ! (q + 5))" using m(2) unfolding span_of_def by blast
          then show ?thesis by (simp add: atom_simps)
        next
          case False
          then have "m \<le> q + 5 \<and> q + 5 < j" using g by simp
          then have "atom_ok L no_flags sp (t ! (q + 5))" using m(3) unfolding span_of_def by blast
          then show ?thesis by (simp add: atom_simps)
        qed
        then show ?thesis using g A letter_small by auto
      next
        case bare
        then have k'q: "k' = q + 5" using k'k by auto
        from f have "j = q + 6"
          using g A unfolding final_span_def k'q by (auto simp: span_of_def atom_simps bs_def)
        then have "drop 6 (butlast ?w) = []" using len by simp
        then show ?thesis by (simp add: strip_def u_def)
      next
        case index
        have kj: "k < j" using final_span_lt [OF f] k'k by auto
        let ?i = "k - 1 - q"
        have i: "6 \<le> ?i" "?i < j - q - 1" using index kj by auto
        then have "?w ! ?i = t ! (q + ?i)" by (intro nth) auto
        then have w: "?w ! ?i = 0x5D" using index by simp
        have "butlast ?w ! ?i = ?w ! ?i" using i len by (simp add: nth_butlast)
        moreover have "drop 6 (butlast ?w) ! (?i - 6) = butlast ?w ! ?i" using i len by simp
        moreover have "?i - 6 < length (drop 6 (butlast ?w))" using i len by simp
        ultimately have mem: "0x5D \<in> set (drop 6 (butlast ?w))" using w by (metis nth_mem)
        show ?thesis
        proof
          assume "strip L (drop 6 (butlast ?w)) = u ''3''"
          then have "strip L (drop 6 (butlast ?w)) = [0x33]" by (simp add: u_def)
          from strip_single [OF this] mem have "(0x5D::int) = 0x33 \<or> isspace L 0x5D" by blast
          then show False using A by simp
        qed
      qed
    qed
    show ?thesis using part1 part2 by (simp add: tame_def)
  qed
qed

section \<open>What expand_group returns\<close>

lemma magic_vec_print [simp]: "magic_vec (print e st) = magic_vec st"
  by (simp add: print_def)

lemma tail_ok:
  assumes "python_like L" and "mv_ok L (magic_vec st)" and "[] \<notin> set parts"
    and "fn = None \<or> (\<exists>g. fn = Some g \<and> fn_ok L g)"
    and "resolved L (magic_vec st) v \<Longrightarrow> resolved L (magic_vec st) x"
  shows "eg_ok L (magic_vec st) v (expand_group_tail L parts fn x st)"
  using tail_total [OF assms(1-4), of x] assms(5) unfolding eg_ok_def by blast

lemma to_superscript_resolved:
  assumes "python_like L" and "to_superscript a = Inr s" and "resolved L mv a"
  shows "resolved L mv s"
proof -
  have c: "resolved L mv (u ''^'')" "resolved L mv (u ''^('')" "resolved L mv (u '')'')"
    using u_free [OF assms(1)] by (auto simp: u_def intro!: magic_free_resolved)
  have "list_all (\<lambda>x. dict_has superscript_ht [x]) a \<Longrightarrow> join_items superscript_ht a = Inr s \<Longrightarrow>
      resolved L mv s"
    using join_items_free [OF tables_small(1) assms(1)] magic_free_resolved by blast
  then show ?thesis
    using assms(2,3) c by (auto simp: to_superscript_def resolved_def [of _ _ "[]"] split: if_splits)
qed

lemma paren_free: "python_like L \<Longrightarrow> magic_free L a \<Longrightarrow> magic_free L (paren a)"
  using u_free [of L "u ''(''"] u_free [of L "u '')''"] by (auto simp: paren_def u_def magic_free_def)

lemma frac_groups_bounds:
  assumes "re_match L no_flags frac_re v = Some m"
  shows "\<exists>k1 e1 k2 j. group v m 1 = Some (slice v k1 e1) \<and> group v m 2 = Some (slice v k2 j) \<and>
           arg_span v k1 e1 \<and> arg_span v k2 j \<and> 5 \<le> k1 \<and> k1 < e1 \<and> e1 \<le> k2 \<and> k2 < j \<and>
           j \<le> length v"
proof -
  from re_match_Some [OF assms] obtain k1 e1 k2 where
    s: "m_caps m = (2, k2, m_end m) # (1, k1, e1) # []" "frac_shape L v 0 k1 e1 k2 (m_end m)"
    by (auto simp: frac_re_iff)
  have "group v m 1 = Some (slice v k1 e1)" "group v m 2 = Some (slice v k2 (m_end m))"
    using s(1) by (simp_all add: group_def)
  then show ?thesis using s(2) frac_shape_bounds [OF s(2)] by (auto simp: frac_shape_def)
qed

lemma expand_group_ok:
  assumes L: "python_like L" and parts: "[] \<notin> set parts"
  shows "mv_ok L (magic_vec st) \<Longrightarrow> tame L v \<Longrightarrow> eg_ok L (magic_vec st) v (expand_group L parts v st)"
proof (induction "length v" arbitrary: v st rule: less_induct)
  case less
  let ?mv = "magic_vec st"
  note mv = less.prems(1)
  note F = font_fns_ok [OF L] to_superscript_ok [OF L] to_subscript_ok [OF L]
  have sub: "\<And>x. set x \<subseteq> set v \<Longrightarrow> resolved L ?mv v \<Longrightarrow> resolved L ?mv x"
    using resolved_subset by blast
  have s1: "\<And>n. set (strip L (drop n v)) \<subseteq> set v"
    using set_strip set_drop_subset by (metis subset_trans)
  have s2: "\<And>n. set (drop n v) \<subseteq> set v" by (rule set_drop_subset)
  have b1: "eg_ok L ?mv v (expand_group_tail L parts (Some mathcal_fn) (strip L (drop 8 v)) st)"
    by (rule tail_ok [OF L mv parts]) (use F sub s1 in auto)
  have b2: "eg_ok L ?mv v (expand_group_tail L parts (Some mathfrak_fn) (strip L (drop 9 v)) st)"
    by (rule tail_ok [OF L mv parts]) (use F sub s1 in auto)
  have b3: "eg_ok L ?mv v (expand_group_tail L parts (Some mathbb_fn) (drop 7 v) st)"
    by (rule tail_ok [OF L mv parts]) (use F sub s2 in auto)
  have b4: "eg_ok L ?mv v (expand_group_tail L parts None [] st)"
    by (rule tail_ok [OF L mv parts]) (auto simp: resolved_def)
  have b5: "eg_ok L ?mv v (expand_group_tail L parts None (drop 5 v) st)"
    by (rule tail_ok [OF L mv parts]) (use sub s2 in auto)
  have root: "\<And>x. magic_free L x \<Longrightarrow> eg_ok L ?mv v (expand_group_tail L parts None x st)"
    by (rule tail_ok [OF L mv parts]) (auto intro: magic_free_resolved)
  have r1: "magic_free L [0x221A]" "magic_free L [0x221C]"
    using u_free [OF L] by auto
  have b9: "eg_ok L ?mv v (expand_group_tail L parts (Some to_subscript) (drop 1 v) st)"
    by (rule tail_ok [OF L mv parts]) (use F sub s2 in auto)
  have b10: "eg_ok L ?mv v (expand_group_tail L parts (Some to_superscript) (drop 1 v) st)"
    by (rule tail_ok [OF L mv parts]) (use F sub s2 in auto)
  have b11: "eg_ok L ?mv v (expand_group_tail L parts None v st)"
    by (rule tail_ok [OF L mv parts]) auto
  have b6: "matches L sqrt_index_re v \<Longrightarrow>
      eg_ok L ?mv v
        (if strip L (drop 6 (butlast v)) = u ''2'' then expand_group_tail L parts None [0x221A] st
         else if strip L (drop 6 (butlast v)) = u ''3'' then Some (Inl AttributeError)
         else if strip L (drop 6 (butlast v)) = u ''4'' then expand_group_tail L parts None [0x221C] st
         else (case to_superscript (strip L (drop 6 (butlast v))) of
                 Inl e \<Rightarrow> Some (Inl e)
               | Inr s \<Rightarrow> expand_group_tail L parts None (s @ [0x221A]) st))"
  proof -
    assume "matches L sqrt_index_re v"
    then have n3: "strip L (drop 6 (butlast v)) \<noteq> u ''3''" using less.prems(2) by (simp add: tame_def)
    obtain s where s: "to_superscript (strip L (drop 6 (butlast v))) = Inr s"
      using to_superscript_total by blast
    have "set (strip L (drop 6 (butlast v))) \<subseteq> set v"
      using set_strip [of L "drop 6 (butlast v)"] set_drop_subset [of 6 "butlast v"]
      by (meson in_set_butlastD subset_iff)
    then have "resolved L ?mv v \<Longrightarrow> resolved L ?mv (s @ [0x221A])"
      using to_superscript_resolved [OF L s] sub magic_free_resolved [OF r1(1)] by simp
    then have "eg_ok L ?mv v (expand_group_tail L parts None (s @ [0x221A]) st)"
      by (intro tail_ok [OF L mv parts]) auto
    then show ?thesis using n3 s root [OF r1(1)] root [OF r1(2)] by simp
  qed
  have b8: "matches L (cmd_guard ''frac'') v \<Longrightarrow>
      eg_ok L ?mv v
        (case re_match L no_flags frac_re v of
           None \<Rightarrow> Some (Inr (v, print Log_MATH_FRAC_ERROR (print (Log_frac v) st)))
         | Some m \<Rightarrow>
             (case (group v m 1, group v m 2) of
                (Some a, Some b) \<Rightarrow>
                  Option.bind (expand_group L parts (strip L a) (print (Log_frac v) st))
                    (\<lambda>ra. case ra of
                       Inl e \<Rightarrow> Some (Inl e)
                     | Inr (a', st') \<Rightarrow>
                         Option.bind (expand_group L parts (strip L b) st')
                           (\<lambda>rb. case rb of
                              Inl e \<Rightarrow> Some (Inl e)
                            | Inr (b', st'') \<Rightarrow>
                                expand_group_tail L parts None (paren a' @ u ''/'' @ paren b') st''))
              | _ \<Rightarrow> Some (Inl AttributeError)))"
  proof (cases "re_match L no_flags frac_re v")
    case None
    assume "matches L (cmd_guard ''frac'') v"
    then have "magic_free L v" using None less.prems(2) by (simp add: tame_def)
    then show ?thesis using None by (simp add: eg_ok_def)
  next
    case (Some m)
    from frac_groups_bounds [OF Some] obtain k1 e1 k2 j where
      g: "group v m 1 = Some (slice v k1 e1)" "group v m 2 = Some (slice v k2 j)"
         "arg_span v k1 e1" "arg_span v k2 j" "5 \<le> k1"
      and bounds: "k1 < e1" "e1 \<le> k2" "k2 < j" "j \<le> length v"
      by blast
    let ?a = "strip L (slice v k1 e1)" and ?b = "strip L (slice v k2 j)"
    let ?st1 = "print (Log_frac v) st"
    have la: "length ?a < length v"
      using length_strip [of L "slice v k1 e1"] bounds g(5) by (simp add: length_slice)
    have lb: "length ?b < length v"
      using length_strip [of L "slice v k2 j"] bounds by (simp add: length_slice)
    have suba: "set ?a \<subseteq> set v" using set_strip [of L "slice v k1 e1"] slice_set [of v k1 e1] by blast
    have subb: "set ?b \<subseteq> set v" using set_strip [of L "slice v k2 j"] slice_set [of v k2 j] by blast
    have ta: "tame L ?a" using arg_tame [OF L g(3)] .
    have tb: "tame L ?b" using arg_tame [OF L g(4)] .
    have mv1: "mv_ok L (magic_vec ?st1)" using mv by simp
    from less.hyps [OF la mv1 ta] obtain ra where
      ra: "expand_group L parts ?a ?st1 = Some ra"
        "ra = Inl IndexError \<or> (\<exists>r st'. ra = Inr (r, st') \<and> magic_free L r \<and> magic_vec st' = ?mv)"
        "resolved L ?mv ?a \<longrightarrow> (\<exists>r st'. ra = Inr (r, st'))"
      by (auto simp: eg_ok_def)
    show ?thesis
    proof (cases ra)
      case (Inl e)
      then have "\<not> resolved L ?mv v" using ra(3) sub [OF suba] by auto
      then show ?thesis using Some g ra Inl by (auto simp: eg_ok_def)
    next
      case (Inr p)
      then obtain a' st' where a': "ra = Inr (a', st')" "magic_free L a'" "magic_vec st' = ?mv"
        using ra(2) by auto
      have mv2: "mv_ok L (magic_vec st')" using mv a'(3) by simp
      from less.hyps [OF lb mv2 tb] obtain rb where
        rb: "expand_group L parts ?b st' = Some rb"
          "rb = Inl IndexError \<or> (\<exists>r st''. rb = Inr (r, st'') \<and> magic_free L r \<and> magic_vec st'' = ?mv)"
          "resolved L ?mv ?b \<longrightarrow> (\<exists>r st''. rb = Inr (r, st''))"
        using a'(3) by (auto simp: eg_ok_def)
      show ?thesis
      proof (cases rb)
        case (Inl e)
        then have "\<not> resolved L ?mv v" using rb(3) sub [OF subb] by auto
        then show ?thesis using Some g ra a' rb Inl by (auto simp: eg_ok_def)
      next
        case (Inr p')
        then obtain b' st'' where b': "rb = Inr (b', st'')" "magic_free L b'" "magic_vec st'' = ?mv"
          using rb(2) by auto
        have "magic_free L (paren a' @ u ''/'' @ paren b')"
          using paren_free [OF L a'(2)] paren_free [OF L b'(2)] u_free [OF L, of "u ''/''"]
          by (simp add: u_def magic_free_def)
        then have "resolved L (magic_vec st'') (paren a' @ u ''/'' @ paren b')"
          by (rule magic_free_resolved)
        from tail_total [OF L _ parts, of st'' None "paren a' @ u ''/'' @ paren b'"] this mv b'(3)
        have "eg_ok L ?mv v (expand_group_tail L parts None (paren a' @ u ''/'' @ paren b') st'')"
          unfolding eg_ok_def by auto
        then show ?thesis using Some g ra a' rb b' by simp
      qed
    qed
  qed
  show ?case
    by (subst expand_group.simps) (simp add: b1 b2 b3 b4 b5 b6 b8 b9 [simplified] b10 [simplified] b11 root r1)
qed

section \<open>Matches in a chain\<close>

lemma chained_mono: "chained n p ms \<Longrightarrow> q \<le> p \<Longrightarrow> chained n q ms"
  by (cases ms) auto

lemma match_at_Some:
  "match_at L f r t q = Some m \<Longrightarrow>
     m_start m = q \<and> (m_end m, m_caps m) \<in> set (paths L f r t (q, []))"
  by (auto simp: match_at_def split: list.splits)

lemma finditer_from_chained:
  "(\<And>q m. match_at L f r t q = Some m \<Longrightarrow> q < m_end m) \<Longrightarrow>
   chained (length t) p (finditer_from L f r t p)"
proof (induction L f r t p rule: finditer_from.induct)
  case (1 L f r t p)
  note ne = "1.prems"
  show ?case
  proof (cases "length t < p")
    case True
    then show ?thesis by simp
  next
    case False
    show ?thesis
    proof (cases "match_at L f r t p")
      case None
      from "1.IH"(1) [OF False None ne] have "chained (length t) (Suc p) (finditer_from L f r t (Suc p))"
        by simp
      then have "chained (length t) p (finditer_from L f r t (Suc p))"
        by (rule chained_mono) simp
      then show ?thesis using None False by simp
    next
      case (Some m)
      have b: "m_start m = p" "p < m_end m" "m_end m \<le> length t"
        using match_at_bounds [OF Some] False ne [OF Some] by auto
      from "1.IH"(2) [OF False Some ne]
      have "chained (length t) (m_end m) (finditer_from L f r t (m_end m))"
        using b by simp
      then show ?thesis using Some False b by simp
    qed
  qed
qed

section \<open>Brace groups\<close>

lemma brace_paths:
  "(j, c) \<in> set (paths L no_flags (brace_re l r) t (q, [])) \<Longrightarrow>
     q + 3 \<le> j \<and> j \<le> length t \<and> c = [(1, Suc q, j - 1)]"
  by (auto simp: brace_re_def seqs_def mem_paths)

lemma brace_match_at:
  assumes "match_at L no_flags (brace_re l r) t q = Some m"
  shows "m_start m = q \<and> brace_match t m"
  using match_at_Some [OF assms] brace_paths [of "m_end m" "m_caps m" L l r t q]
  by (auto simp: brace_match_def group_def)

lemma brace_finditer:
  "chained (length t) 0 (finditer L no_flags (brace_re l r) t) \<and>
   list_all (brace_match t) (finditer L no_flags (brace_re l r) t)"
proof -
  have "\<And>q m. match_at L no_flags (brace_re l r) t q = Some m \<Longrightarrow> q < m_end m"
    using brace_match_at by (fastforce simp: brace_match_def)
  then have "chained (length t) 0 (finditer_from L no_flags (brace_re l r) t 0)"
    by (rule finditer_from_chained)
  moreover have "\<And>m. m \<in> set (finditer_from L no_flags (brace_re l r) t 0) \<Longrightarrow> brace_match t m"
    using finditer_from_set brace_match_at by blast
  ultimately show ?thesis by (simp add: finditer_def list_all_iff)
qed

section \<open>The loop over the tokens\<close>

lemma token_matches:
  assumes L: "python_like L" and m: "m \<in> set (finditer L no_flags token_re t)"
  shows "tame L (group0 t m) \<and> set (group0 t m) \<subseteq> set t"
proof -
  from finditer_from_set [of m L no_flags token_re t 0] m obtain q where
    q: "q \<le> length t" "match_at L no_flags token_re t q = Some m"
    by (auto simp: finditer_def)
  from match_at_Some [OF q(2)] have "m_start m = q"
    "(m_end m, m_caps m) \<in> set (paths L no_flags token_re t (q, []))" by auto
  then have "tame L (group0 t m)" using token_tame [OF L _ q(1)] by (auto simp: group0_def)
  then show ?thesis using group0_set [of t m] by simp
qed

lemma for_tokens_ok:
  assumes L: "python_like L"
  shows "mv_ok L (magic_vec st) \<Longrightarrow> [] \<notin> set parts \<Longrightarrow> list_all (magic_free L) parts \<Longrightarrow>
     list_all (\<lambda>m. tame L (group0 t m)) ms \<Longrightarrow>
     ft_ok L (magic_vec st) (list_all (\<lambda>m. resolved L (magic_vec st) (group0 t m)) ms)
       (for_tokens L t ms parts st)"
proof (induction ms arbitrary: parts st)
  case Nil
  then show ?case by (simp add: ft_ok_def)
next
  case (Cons m ms)
  let ?mv = "magic_vec st"
  from Cons.prems have tm: "tame L (group0 t m)" and tms: "list_all (\<lambda>m. tame L (group0 t m)) ms"
    by auto
  from expand_group_ok [OF L Cons.prems(2) Cons.prems(1) tm] obtain res where
    res: "expand_group L parts (group0 t m) st = Some res"
      "res = Inl IndexError \<or> (\<exists>r st'. res = Inr (r, st') \<and> magic_free L r \<and> magic_vec st' = ?mv)"
      "resolved L ?mv (group0 t m) \<longrightarrow> (\<exists>r st'. res = Inr (r, st'))"
    unfolding eg_ok_def by blast
  show ?case
  proof (cases res)
    case (Inl e)
    then show ?thesis using res by (auto simp: ft_ok_def ret_bind_def)
  next
    case (Inr p)
    then obtain r st' where r: "res = Inr (r, st')" "magic_free L r" "magic_vec st' = ?mv"
      using res(2) by auto
    let ?parts = "if r \<noteq> [] then parts @ [r] else parts"
    have "ft_ok L (magic_vec st') (list_all (\<lambda>m. resolved L (magic_vec st') (group0 t m)) ms)
        (for_tokens L t ms ?parts st')"
      by (rule Cons.IH) (use Cons.prems r tms in auto)
    then show ?thesis using res(1) r by (auto simp: ft_ok_def ret_bind_def)
  qed
qed

section \<open>One substitution pass of math_magic\<close>

lemma step_okE:
  assumes "step_ok L st src y"
  obtains (err) err where "y = Some (Inl err)" "err = IndexError \<or> err = ValueError" "\<not> fits L st src"
  | (ok) t' st' ext where "y = Some (Inr (t', st'))" "mv_ok L (magic_vec st')"
      "magic_vec st' = magic_vec st @ ext" "length ext + length t' \<le> length src"
      "t' = src \<or> length t' < length src"
      "resolved L (magic_vec st) src \<Longrightarrow> resolved L (magic_vec st') t'"
  using assms unfolding step_ok_def by blast

lemma step_okI:
  "y = Some (Inr (t', st')) \<Longrightarrow> mv_ok L (magic_vec st') \<Longrightarrow> magic_vec st' = magic_vec st @ ext \<Longrightarrow>
   length ext + length t' \<le> length src \<Longrightarrow> t' = src \<or> length t' < length src \<Longrightarrow>
   (resolved L (magic_vec st) src \<Longrightarrow> resolved L (magic_vec st') t') \<Longrightarrow> step_ok L st src y"
  unfolding step_ok_def by blast

lemma step_ok_errI:
  "y = Some (Inl err) \<Longrightarrow> err = IndexError \<or> err = ValueError \<Longrightarrow> \<not> fits L st src \<Longrightarrow>
   step_ok L st src y"
  unfolding step_ok_def by blast

lemma rec_okE:
  assumes "rec_ok L st src y"
  obtains (err) err where "y = Some (Inl err)" "err = IndexError \<or> err = ValueError" "\<not> fits L st src"
  | (ok) r st' ext where "y = Some (Inr (r, st'))" "magic_free L r" "mv_ok L (magic_vec st')"
      "magic_vec st' = magic_vec st @ ext" "length ext \<le> length src"
  using assms unfolding rec_ok_def by blast

lemma rec_okI:
  "y = Some (Inr (r, st')) \<Longrightarrow> magic_free L r \<Longrightarrow> mv_ok L (magic_vec st') \<Longrightarrow>
   magic_vec st' = magic_vec st @ ext \<Longrightarrow> length ext \<le> length src \<Longrightarrow> rec_ok L st src y"
  unfolding rec_ok_def by blast

lemma rec_ok_errI:
  "y = Some (Inl err) \<Longrightarrow> err = IndexError \<or> err = ValueError \<Longrightarrow> \<not> fits L st src \<Longrightarrow>
   rec_ok L st src y"
  unfolding rec_ok_def by blast

lemma set_slice_drop: "p \<le> i \<Longrightarrow> set (slice t i j) \<subseteq> set (drop p t)"
proof -
  assume "p \<le> i"
  then have "drop i t = drop (i - p) (drop p t)" by simp
  then have "slice t i j = take (j - i) (drop (i - p) (drop p t))" by (simp add: slice_def)
  then show ?thesis by (metis set_drop_subset set_take_subset subset_trans)
qed

lemma set_drop_drop: "p \<le> e \<Longrightarrow> set (drop e t) \<subseteq> set (drop p t)"
proof -
  assume "p \<le> e"
  then have "drop e t = drop (e - p) (drop p t)" by simp
  then show ?thesis by (metis set_drop_subset)
qed

lemma room_mono: "room L mv n \<Longrightarrow> length mv' + n' \<le> length mv + n \<Longrightarrow> room L mv' n'"
  by (auto simp: room_def)

lemma fits_sub:
  "fits L st src \<Longrightarrow> set g \<subseteq> set src \<Longrightarrow> length (magic_vec st) \<le> length (magic_vec st') \<Longrightarrow>
   length (magic_vec st') + length g \<le> length (magic_vec st) + length src \<Longrightarrow> fits L st' g"
  unfolding fits_def using resolved_subset resolved_grow room_mono by blast

lemma pass_ok:
  assumes L: "python_like L"
    and fn: "\<And>g st. length g + 2 \<le> length t \<Longrightarrow> mv_ok L (magic_vec st) \<Longrightarrow> rec_ok L st g (fn g st)"
  shows "chained (length t) pos ms \<Longrightarrow> list_all (brace_match t) ms \<Longrightarrow> mv_ok L (magic_vec st) \<Longrightarrow>
     step_ok L st (drop pos t) (re_sub_m (repl L fn t) t pos ms st)"
proof (induction ms arbitrary: pos st)
  case Nil
  show ?case by (rule step_okI [where ext = "[]"]) (use Nil in simp_all)
next
  case (Cons m ms)
  let ?mv = "magic_vec st" and ?src = "drop pos t"
  let ?s = "m_start m" and ?e = "m_end m"
  let ?magic = "MAGIC_FIRST L + int (length ?mv)"
  let ?g = "slice t (Suc ?s) (?e - 1)"
  have bm: "list_all (brace_match t) ms" and bm0: "brace_match t m" using Cons.prems(2) by simp_all
  have b: "pos \<le> ?s" "?s + 3 \<le> ?e" "?e \<le> length t" "group t m 1 = Some ?g"
    and ch: "chained (length t) ?e ms"
    using Cons.prems(1) bm0 by (auto simp: brace_match_def)
  have lg: "length ?g = ?e - ?s - 2" using b by (simp add: length_slice)
  have lsrc: "length ?src = length t - pos" by simp
  have mf: "0 \<le> ?magic" using L by (simp add: python_like_def)
  show ?case
  proof (cases "0x10FFFF < ?magic")
    case True
    then have "\<not> fits L st ?src" using b by (simp add: room_def fits_def)
    moreover have "re_sub_m (repl L fn t) t pos (m # ms) st = Some (Inl ValueError)"
      using True by (simp add: repl_def ret_bind_def Let_def)
    ultimately show ?thesis by (intro step_ok_errI) auto
  next
    case False
    have rp: "repl L fn t m st =
        ret_bind (fn ?g st) (\<lambda>(x, st'). Some (Inr ([?magic], st'\<lparr>magic_vec := magic_vec st' @ [x]\<rparr>)))"
      using False mf b(4) by (simp add: repl_def Let_def)
    have "length ?g + 2 \<le> length t" using lg b by simp
    from fn [OF this Cons.prems(3)] have 1: "rec_ok L st ?g (fn ?g st)" .
    have sg: "set ?g \<subseteq> set ?src" using b by (intro set_slice_drop) simp
    have hg: "fits L st ?src \<Longrightarrow> fits L st ?g"
    proof -
      assume f: "fits L st ?src"
      show ?thesis by (rule fits_sub [OF f sg]) (use lg b in auto)
    qed
    from 1 show ?thesis
    proof (cases rule: rec_okE)
      case (err err)
      have "re_sub_m (repl L fn t) t pos (m # ms) st = Some (Inl err)"
        using rp err(1) by (simp add: ret_bind_def)
      then show ?thesis using err(2,3) hg by (intro step_ok_errI) auto
    next
      case (ok x st1 ext1)
      let ?st2 = "st1\<lparr>magic_vec := magic_vec st1 @ [x]\<rparr>"
      have rp2: "repl L fn t m st = Some (Inr ([?magic], ?st2))"
        using rp ok(1) by (simp add: ret_bind_def)
      have mv2: "mv_ok L (magic_vec ?st2)" using ok(2,3) by (simp add: mv_ok_def)
      have l2: "length (magic_vec ?st2) = length ?mv + length ext1 + 1" using ok(4) by simp
      have se: "set (drop ?e t) \<subseteq> set ?src" using b by (intro set_drop_drop) simp
      have res_e: "resolved L ?mv ?src \<Longrightarrow> resolved L (magic_vec ?st2) (drop ?e t)"
      proof -
        assume h: "resolved L ?mv ?src"
        then have "resolved L ?mv (drop ?e t)" using se resolved_subset by blast
        then show ?thesis by (rule resolved_grow) (use ok(4) in simp)
      qed
      have he: "fits L st ?src \<Longrightarrow> fits L ?st2 (drop ?e t)"
      proof -
        assume f: "fits L st ?src"
        show ?thesis by (rule fits_sub [OF f se]) (use lg b ok(4,5) in auto)
      qed
      from Cons.IH [OF ch bm mv2] have 2: "step_ok L ?st2 (drop ?e t) (re_sub_m (repl L fn t) t ?e ms ?st2)" .
      from 2 show ?thesis
      proof (cases rule: step_okE)
        case (err err)
        have "re_sub_m (repl L fn t) t pos (m # ms) st = Some (Inl err)"
          using rp2 err(1) by (simp add: ret_bind_def)
        then show ?thesis using err(2,3) he by (intro step_ok_errI) auto
      next
        case (ok rest st3 ext2)
        note x = \<open>magic_vec st1 = ?mv @ ext1\<close> \<open>length ext1 \<le> length ?g\<close>
        let ?t' = "slice t pos ?s @ [?magic] @ rest"
        have whole: "re_sub_m (repl L fn t) t pos (m # ms) st = Some (Inr (?t', st3))"
          using rp2 ok(1) by (simp add: ret_bind_def)
        have lsl: "length (slice t pos ?s) = ?s - pos" using b by (simp add: length_slice)
        have ext: "magic_vec st3 = ?mv @ (ext1 @ [x] @ ext2)" using ok(3) x(1) by simp
        have len: "length (ext1 @ [x] @ ext2) + length ?t' \<le> length ?src"
          using lsl ok(4) x(2) lg b by simp
        have lt: "length ?t' < length ?src" using lsl ok(4) b by simp
        have rs: "resolved L ?mv ?src \<Longrightarrow> resolved L (magic_vec st3) ?t'"
        proof -
          assume h: "resolved L ?mv ?src"
          have "set (slice t pos ?s) \<subseteq> set ?src" by (intro set_slice_drop) simp
          then have "resolved L ?mv (slice t pos ?s)" using h resolved_subset by blast
          then have 1: "resolved L (magic_vec st3) (slice t pos ?s)"
            by (rule resolved_grow) (simp add: ext)
          have 2: "resolved L (magic_vec st3) [?magic]" by (simp add: resolved_def ext)
          have 3: "resolved L (magic_vec st3) rest" using ok(6) res_e [OF h] by simp
          show ?thesis using 1 2 3 by (simp add: resolved_def)
        qed
        show ?thesis
          by (rule step_okI [OF whole ok(2) ext len _ rs]) (use lt in simp_all)
      qed
    qed
  qed
qed

section \<open>The loops of recurse\<close>

lemma step_ok_trans:
  assumes a: "magic_vec st' = magic_vec st @ ext" "length ext + length t' \<le> length src"
      "t' = src \<or> length t' < length src"
      "resolved L (magic_vec st) src \<Longrightarrow> resolved L (magic_vec st') t'"
    and y: "step_ok L st' t' y"
  shows "step_ok L st src y"
  using y
proof (cases rule: step_okE)
  case (err err)
  have "fits L st src \<Longrightarrow> fits L st' t'"
    using a by (auto simp: fits_def room_def)
  then show ?thesis using err by (intro step_ok_errI) auto
next
  case (ok t'' st'' ext')
  have 1: "magic_vec st'' = magic_vec st @ (ext @ ext')" using ok(3) a(1) by simp
  have 2: "length (ext @ ext') + length t'' \<le> length src" using ok(4) a(2) by simp
  have 3: "t'' = src \<or> length t'' < length src" using ok(5) a(3) by auto
  have 4: "resolved L (magic_vec st) src \<Longrightarrow> resolved L (magic_vec st'') t''"
    using ok(6) a(4) by simp
  show ?thesis by (rule step_okI [OF ok(1,2) 1 2 3 4])
qed

lemma math_magic_ok:
  assumes L: "python_like L"
    and fn: "\<And>g st. length g + 2 \<le> n \<Longrightarrow> mv_ok L (magic_vec st) \<Longrightarrow> rec_ok L st g (fn g st)"
  shows "length t \<le> n \<Longrightarrow> mv_ok L (magic_vec st) \<Longrightarrow> step_ok L st t (math_magic L t l r fn st)"
proof (induction "length t" arbitrary: t st rule: less_induct)
  case less
  let ?pass = "re_sub_m (repl L fn t) t 0 (finditer L no_flags (brace_re l r) t) st"
  have fn': "\<And>g st. length g + 2 \<le> length t \<Longrightarrow> mv_ok L (magic_vec st) \<Longrightarrow> rec_ok L st g (fn g st)"
    using fn less.prems(1) by simp
  have "step_ok L st (drop 0 t) ?pass"
    using brace_finditer [of t L l r] by (intro pass_ok [OF L fn'] less.prems) simp_all
  then have "step_ok L st t ?pass" by simp
  then show ?case
  proof (cases rule: step_okE)
    case (err err)
    have "math_magic L t l r fn st = Some (Inl err)"
      by (subst math_magic.simps) (simp add: err(1))
    then show ?thesis using err by (intro step_ok_errI) auto
  next
    case (ok t' st' ext)
    show ?thesis
    proof (cases "t' = t")
      case True
      have "math_magic L t l r fn st = Some (Inr (t', st'))"
        by (subst math_magic.simps) (simp add: ok(1) True)
      then show ?thesis by (rule step_okI [OF _ ok(2-6)])
    next
      case False
      then have lt: "length t' < length t" using ok(5) by simp
      have eq: "math_magic L t l r fn st = math_magic L t' l r fn st'"
        by (subst math_magic.simps) (simp add: ok(1) False)
      have s: "step_ok L st' t' (math_magic L t' l r fn st')"
        by (rule less.hyps [OF lt _ ok(2)]) (use lt less.prems(1) in simp)
      show ?thesis unfolding eq by (rule step_ok_trans [OF ok(3,4,5) _ s]) (rule ok(6))
    qed
  qed
qed

lemma recurse_while_ok:
  assumes L: "python_like L"
    and fn: "\<And>g st. length g + 2 \<le> n \<Longrightarrow> mv_ok L (magic_vec st) \<Longrightarrow> rec_ok L st g (fn g st)"
  shows "length t \<le> n \<Longrightarrow> mv_ok L (magic_vec st) \<Longrightarrow> step_ok L st t (recurse_while L fn t st)"
proof (induction "length t" arbitrary: t st rule: less_induct)
  case less
  have "step_ok L st t (math_magic L t 0x7B 0x7D fn st)"
    by (rule math_magic_ok [OF L fn less.prems])
  then show ?case
  proof (cases rule: step_okE)
    case (err err)
    have "recurse_while L fn t st = Some (Inl err)"
      by (subst recurse_while.simps) (simp add: err(1))
    then show ?thesis using err by (intro step_ok_errI) auto
  next
    case (ok t' st' ext)
    show ?thesis
    proof (cases "t' = t")
      case True
      have "recurse_while L fn t st = Some (Inr (t', st'))"
        by (subst recurse_while.simps) (simp add: ok(1) True)
      then show ?thesis by (rule step_okI [OF _ ok(2-6)])
    next
      case False
      then have lt: "length t' < length t" using ok(5) by simp
      have eq: "recurse_while L fn t st = recurse_while L fn t' st'"
        by (subst recurse_while.simps) (simp add: ok(1) False)
      have s: "step_ok L st' t' (recurse_while L fn t' st')"
        by (rule less.hyps [OF lt _ ok(2)]) (use lt less.prems(1) in simp)
      show ?thesis unfolding eq by (rule step_ok_trans [OF ok(3,4,5) _ s]) (rule ok(6))
    qed
  qed
qed

lemma ft_okE:
  assumes "ft_ok L mv res_in y"
  obtains (err) "y = Some (Inl IndexError)" "\<not> res_in"
  | (ok) ps st' where "y = Some (Inr (ps, st'))" "list_all (magic_free L) ps" "magic_vec st' = mv"
  using assms unfolding ft_ok_def by blast

lemma magic_free_concat: "list_all (magic_free L) ps \<Longrightarrow> magic_free L (concat ps)"
  by (induction ps) auto

lemma recurse_ok:
  assumes L: "python_like L"
  shows "length t < n \<Longrightarrow> mv_ok L (magic_vec st) \<Longrightarrow> rec_ok L st t (recurse L n t st)"
proof (induction n arbitrary: t st)
  case 0
  then show ?case by simp
next
  case (Suc n)
  let ?fn = "\<lambda>t s. recurse L n t s"
  have fn: "\<And>g st. length g + 2 \<le> Suc n \<Longrightarrow> mv_ok L (magic_vec st) \<Longrightarrow> rec_ok L st g (?fn g st)"
    by (rule Suc.IH) simp_all
  have "step_ok L st t (recurse_while L ?fn t st)"
  proof (rule recurse_while_ok [OF L, where n = "Suc n"])
    show "length t \<le> Suc n" using Suc.prems(1) by simp
    show "mv_ok L (magic_vec st)" by (rule Suc.prems(2))
    show "\<And>g st. length g + 2 \<le> Suc n \<Longrightarrow> mv_ok L (magic_vec st) \<Longrightarrow> rec_ok L st g (?fn g st)"
      by (rule fn)
  qed
  then show ?case
  proof (cases rule: step_okE)
    case (err err)
    have "recurse L (Suc n) t st = Some (Inl err)"
      by (simp add: err(1) ret_bind_def)
    then show ?thesis using err by (intro rec_ok_errI) auto
  next
    case (ok t' st' ext)
    let ?st1 = "print (Log_BEFORE_ITER t') st'"
    let ?ms = "finditer L no_flags token_re t'"
    have eq: "recurse L (Suc n) t st =
        ret_bind (for_tokens L t' ?ms [] ?st1) (\<lambda>(parts, st''). Some (Inr (concat parts, st'')))"
      by (simp add: ok(1) ret_bind_def)
    note o = ok
    have tm: "list_all (\<lambda>m. tame L (group0 t' m)) ?ms"
      using token_matches [OF L] by (simp add: list_all_iff)
    have "ft_ok L (magic_vec ?st1) (list_all (\<lambda>m. resolved L (magic_vec ?st1) (group0 t' m)) ?ms)
        (for_tokens L t' ?ms [] ?st1)"
      by (rule for_tokens_ok [OF L]) (use ok(2) tm in simp_all)
    then show ?thesis
    proof (cases rule: ft_okE)
      case err
      have "\<not> fits L st t"
      proof
        assume "fits L st t"
        then have "resolved L (magic_vec st') t'" using o(6) by (simp add: fits_def)
        then have "list_all (\<lambda>m. resolved L (magic_vec ?st1) (group0 t' m)) ?ms"
          using token_matches [OF L] resolved_subset by (fastforce simp: list_all_iff)
        then show False using err(2) by simp
      qed
      moreover have "recurse L (Suc n) t st = Some (Inl IndexError)"
        unfolding eq by (simp add: err(1) ret_bind_def)
      ultimately show ?thesis by (intro rec_ok_errI) auto
    next
      case (ok ps st'')
      have 1: "recurse L (Suc n) t st = Some (Inr (concat ps, st''))"
        unfolding eq by (simp add: ok(1) ret_bind_def)
      have 2: "magic_vec st'' = magic_vec st @ ext" using ok(3) o(3) by simp
      have 3: "mv_ok L (magic_vec st'')" using ok(3) o(2) by simp
      show ?thesis
        by (rule rec_okI [OF 1 magic_free_concat [OF ok(2)] 3 2]) (use o(4) in simp)
    qed
  qed
qed

lemma to_math_ok:
  assumes L: "python_like L"
  shows "(\<exists>err. to_math L t = Some (Inl err) \<and> (err = IndexError \<or> err = ValueError) \<and>
            \<not> (magic_free L t \<and> MAGIC_FIRST L + int (length t) \<le> 0x110000)) \<or>
         (\<exists>r. to_math L t = Some (Inr r) \<and> magic_free L r)"
proof -
  let ?st = "print (Log_to_math t) \<lparr>magic_vec = [], stdout = []\<rparr>"
  have "rec_ok L ?st t (recurse L (Suc (length t)) t ?st)"
    by (rule recurse_ok [OF L]) (simp_all add: mv_ok_def)
  then show ?thesis
  proof (cases rule: rec_okE)
    case (err err)
    have "magic_free L t \<and> MAGIC_FIRST L + int (length t) \<le> 0x110000 \<Longrightarrow> fits L ?st t"
      by (simp add: fits_def room_def magic_free_resolved)
    moreover have "to_math L t = Some (Inl err)"
      by (simp add: to_math_def to_math_run_def err(1) ret_bind_def del: recurse.simps)
    ultimately show ?thesis using err(2,3) by blast
  next
    case (ok r st' ext)
    have "to_math L t = Some (Inr r)"
      by (simp add: to_math_def to_math_run_def ok(1) ret_bind_def del: recurse.simps)
    then show ?thesis using ok(2) by blast
  qed
qed

section \<open>The library instance and the fraction branch\<close>

lemma python_like_cpython: "python_like cpython"
  unfolding python_like_def
proof (intro conjI allI impI)
  show "0x100000 \<le> MAGIC_FIRST cpython" by (simp add: cpython_def)
next
  fix c assume "is_magic cpython c"
  then show "\<not> isspace cpython c" by (simp add: is_magic_def cpython_def in_ranges_def)
next
  fix c :: int assume "0 \<le> c \<and> c < 0x80"
  then show "isspace cpython c \<longleftrightarrow> (9 \<le> c \<and> c \<le> 13) \<or> (28 \<le> c \<and> c \<le> 32)"
    by (auto simp: cpython_def in_ranges_def)
next
  fix c :: int assume "0 \<le> c \<and> c < 0x80"
  then show "isalnum cpython c \<longleftrightarrow> (0x30 \<le> c \<and> c \<le> 0x39) \<or> (0x41 \<le> c \<and> c \<le> 0x5A) \<or>
            (0x61 \<le> c \<and> c \<le> 0x7A)"
    by (auto simp: cpython_def in_ranges_def)
qed

lemma strip_space_prefix: "isspace L c \<Longrightarrow> strip L (c # w) = strip L w"
  by (simp add: strip_def)

lemma python_like_space: "python_like L \<Longrightarrow> isspace L 0x20 \<and> \<not> isspace L 0x2F \<and> \<not> isspace L 0x28 \<and> \<not> isspace L 0x29"
  by (simp add: python_like_def)

lemma tail_plain:
  assumes L: "python_like L" and parts: "[] \<notin> set parts" and w: "magic_free L w"
    and nb: "\<not> startswith w [bs]" and ns: "\<not> str_isspace L w" and na: "w \<noteq> u ''&''"
    and st: "strip L w = w"
  shows "expand_group_tail L parts None w st = Some (Inr (w, st))"
proof -
  have lp: "parts \<noteq> [] \<Longrightarrow> last parts \<noteq> []" using parts last_in_set by metis
  have "\<exists>sp. needs_space L parts w = Inr sp"
    using lp by (cases "parts = []") (auto simp: needs_space_def)
  then obtain sp where sp: "needs_space L parts w = Inr sp" ..
  have mf: "magic_free L (if sp then u '' '' @ w else w)"
    using w space_free [OF L] by simp
  have "strip L (if sp then u '' '' @ w else w) = w"
    using st python_like_space [OF L] by (simp add: u_def strip_space_prefix)
  then have "expand L (magic_vec st) (if sp then u '' '' @ w else w) = Some (Inr w)"
    using expand_free [OF mf] by simp
  then show ?thesis
    using nb ns na sp by (simp add: expand_group_tail_def ret_bind_def Let_def)
qed

lemma frac_join_plain:
  assumes L: "python_like L"
    and a: "magic_free L a" "strip L a = a" "a \<noteq> [bs]"
    and b: "magic_free L b" "strip L b = b"
  shows "magic_free L (paren a @ u ''/'' @ paren b) \<and>
         \<not> startswith (paren a @ u ''/'' @ paren b) [bs] \<and>
         \<not> str_isspace L (paren a @ u ''/'' @ paren b) \<and>
         paren a @ u ''/'' @ paren b \<noteq> u ''&'' \<and>
         strip L (paren a @ u ''/'' @ paren b) = paren a @ u ''/'' @ paren b"
proof -
  let ?w = "paren a @ u ''/'' @ paren b"
  note S = python_like_space [OF L]
  have 1: "magic_free L ?w"
    using paren_free [OF L a(1)] paren_free [OF L b(1)] u_free [OF L, of "u ''/''"]
    by (simp add: u_def magic_free_def)
  have ha: "a \<noteq> [] \<Longrightarrow> \<not> isspace L (hd a)" using strip_ends [of L a] a(2) by simp
  have lb: "b \<noteq> [] \<Longrightarrow> \<not> isspace L (last b)" using strip_ends [of L b] b(2) by simp
  have hd_w: "hd ?w = (if a = [] then 0x2F else if 1 < length a then 0x28 else hd a)"
    by (cases a) (auto simp: paren_def u_def)
  have last_w: "last ?w = (if b = [] then 0x2F else if 1 < length b then 0x29 else last b)"
    by (cases b) (auto simp: paren_def u_def)
  have ne: "?w \<noteq> []" by (simp add: u_def)
  have 2: "\<not> startswith ?w [bs]"
  proof
    assume "startswith ?w [bs]"
    then have "hd ?w = bs" using ne by (cases ?w) (auto simp: startswith_def)
    then show False using hd_w a(3) by (cases a) (auto simp: bs_def split: if_splits)
  qed
  have 3: "\<not> str_isspace L ?w" using S by (simp add: str_isspace_def u_def)
  have 4: "?w \<noteq> u ''&''"
  proof
    assume e: "?w = u ''&''"
    then have "length ?w = 1" by (simp add: u_def)
    then have "paren a = []" "paren b = []" by (simp_all add: u_def)
    then show False using e by (simp add: u_def)
  qed
  have 5: "strip L ?w = ?w"
    by (rule strip_id) (use ne hd_w last_w ha lb S in \<open>auto split: if_splits\<close>)
  show ?thesis using 1 2 3 4 5 by simp
qed

lemma frac_branch:
  assumes g: "matches L (cmd_guard ''frac'') v"
  shows "expand_group L parts v st =
        (case re_match L no_flags frac_re v of
           None \<Rightarrow> Some (Inr (v, print Log_MATH_FRAC_ERROR (print (Log_frac v) st)))
         | Some m \<Rightarrow>
             (case (group v m 1, group v m 2) of
                (Some a, Some b) \<Rightarrow>
                  Option.bind (expand_group L parts (strip L a) (print (Log_frac v) st))
                    (\<lambda>ra. case ra of
                       Inl e \<Rightarrow> Some (Inl e)
                     | Inr (a', st') \<Rightarrow>
                         Option.bind (expand_group L parts (strip L b) st')
                           (\<lambda>rb. case rb of
                              Inl e \<Rightarrow> Some (Inl e)
                            | Inr (b', st'') \<Rightarrow>
                                expand_group_tail L parts None (paren a' @ u ''/'' @ paren b') st''))
              | _ \<Rightarrow> Some (Inl AttributeError)))"
  using frac_guard_excludes [OF g] g by (subst expand_group.simps) simp

lemma expand_group_arg:
  assumes L: "python_like L" and parts: "[] \<notin> set parts" and mv: "mv_ok L (magic_vec st)"
    and a: "arg_span v k e"
    and r: "expand_group L parts (strip L (slice v k e)) st = Some (Inr (a', st'))"
  shows "magic_free L a' \<and> strip L a' = a' \<and> magic_vec st' = magic_vec st"
  using expand_group_ok [OF L parts mv arg_tame [OF L a]] r strip_idem [of L "slice v k e"]
  by (auto simp: eg_ok_def)

section \<open>Placeholders do not escape\<close>

text \<open>
  With a library as \<open>python_like\<close> describes it, \<^verbatim>\<open>to_math\<close> terminates on every text
  without code points of the placeholder range, and a string that it returns holds no
  code point of that range: every part of the result has gone through \<^verbatim>\<open>expand\<close>, which
  replaces the code points from \<^verbatim>\<open>MAGIC_FIRST\<close> to \<^verbatim>\<open>MAGIC_LAST\<close> for as long as there
  are any, or is a token without them, and the entries of the placeholder vector are
  themselves results of \<^verbatim>\<open>recurse\<close>.
\<close>

lemma to_math_magic_free:
  assumes "python_like L" and "magic_free L text"
  shows "\<exists>res. to_math L text = Some res \<and> (\<forall>r. res = Inr r \<longrightarrow> magic_free L r)"
  using to_math_ok [OF assms(1), of "text"] by auto

section \<open>Fractions, joined\<close>

text \<open>
  What the branch of lines 658 to 672 returns on a token that passes the test of line 658
  and matches the pattern of lines 660-661, when the two recursive calls on the stripped
  arguments return \<open>a'\<close> and \<open>b'\<close> and \<open>a'\<close> is not a lone backslash: \<open>a'\<close>, a slash
  and \<open>b'\<close>, each side in parentheses when it is longer than one character.
\<close>

lemma frac_joined:
  assumes L: "python_like L" and parts: "[] \<notin> set parts" and mv: "mv_ok L (magic_vec st)"
    and g: "matches L (cmd_guard ''frac'') v"
    and m: "re_match L no_flags frac_re v = Some m"
    and ga: "group v m 1 = Some a" and gb: "group v m 2 = Some b"
    and ra: "expand_group L parts (strip L a) (print (Log_frac v) st) = Some (Inr (a', st'))"
    and rb: "expand_group L parts (strip L b) st' = Some (Inr (b', st''))"
    and nb: "a' \<noteq> [bs]"
  shows "expand_group L parts v st = Some (Inr (paren a' @ u ''/'' @ paren b', st''))"
proof -
  from frac_groups_bounds [OF m] ga gb obtain k1 e1 k2 j where
    s: "a = slice v k1 e1" "b = slice v k2 j" "arg_span v k1 e1" "arg_span v k2 j"
    by auto
  have mv1: "mv_ok L (magic_vec (print (Log_frac v) st))" using mv by simp
  have pa: "magic_free L a' \<and> strip L a' = a' \<and> magic_vec st' = magic_vec (print (Log_frac v) st)"
    using expand_group_arg [OF L parts mv1 s(3)] ra s(1) by simp
  then have mv2: "mv_ok L (magic_vec st')" using mv by simp
  have pb: "magic_free L b' \<and> strip L b' = b' \<and> magic_vec st'' = magic_vec st'"
    using expand_group_arg [OF L parts mv2 s(4)] rb s(2) by simp
  have w: "expand_group_tail L parts None (paren a' @ u ''/'' @ paren b') st'' =
      Some (Inr (paren a' @ u ''/'' @ paren b', st''))"
    using frac_join_plain [OF L, of a' b'] pa pb nb by (intro tail_plain [OF L parts]) simp_all
  show ?thesis
    unfolding frac_branch [OF g] using m ga gb ra rb w by simp
qed

text \<open>
  C2. The two resolved sides of a fraction, each in parentheses exactly when it is longer
  than one character, are joined with a slash: \<^verbatim>\<open>\frac{1}{2}\<close> gives \<^verbatim>\<open>1/2\<close>,
  \<^verbatim>\<open>\frac{ab}{cd}\<close> gives \<^verbatim>\<open>(ab)/(cd)\<close>, \<^verbatim>\<open>\frac{ab}{c}\<close> gives \<^verbatim>\<open>(ab)/c\<close> and
  \<^verbatim>\<open>\frac{a}{cd}\<close> gives \<^verbatim>\<open>a/(cd)\<close>. But line 672 only assigns the joined string to
  \<^verbatim>\<open>v\<close>, which then falls through to the test of line 679 for a command. When the
  numerator resolves to a backslash, as in \<^verbatim>\<open>\frac{\backslash}{1}\<close> and in a fraction of
  an escaped backslash and 1, the joined string begins with a backslash, is looked up in
  \<^verbatim>\<open>math_map\<close> and loses its first character: \<^verbatim>\<open>to_math\<close> returns \<^verbatim>\<open>/1\<close>, without
  the numerator. A backslash as denominator is kept.
\<close>

theorem frac_numerator_lost:
  "to_math cpython (bs # u ''frac{1}{2}'') = Some (Inr (u ''1/2'')) \<and>
   to_math cpython (bs # u ''frac{ab}{cd}'') = Some (Inr (u ''(ab)/(cd)'')) \<and>
   to_math cpython (bs # u ''frac{ab}{c}'') = Some (Inr (u ''(ab)/c'')) \<and>
   to_math cpython (bs # u ''frac{a}{cd}'') = Some (Inr (u ''a/(cd)'')) \<and>
   expand_group cpython [] [bs, bs] \<lparr>magic_vec = [], stdout = []\<rparr> =
     Some (Inr ([bs], \<lparr>magic_vec = [], stdout = []\<rparr>)) \<and>
   expand_group cpython [] (u ''1'') \<lparr>magic_vec = [], stdout = []\<rparr> =
     Some (Inr (u ''1'', \<lparr>magic_vec = [], stdout = []\<rparr>)) \<and>
   paren [bs] @ u ''/'' @ paren (u ''1'') = bs # u ''/1'' \<and>
   to_math cpython (bs # u ''frac'' @ [bs, bs] @ u ''1'') = Some (Inr (u ''/1'')) \<and>
   to_math cpython (bs # u ''frac{'' @ bs # u ''backslash}{1}'') = Some (Inr (u ''/1'')) \<and>
   to_math cpython (bs # u ''frac1'' @ [bs, bs]) = Some (Inr (u ''1/'' @ [bs]))"
  by code_simp

section \<open>Groups that every match has, and the exceptions of the value cleaner\<close>

lemma paths_must:
  "(j, c') \<in> set (paths L f r t (i, c)) \<Longrightarrow> must r n \<or> n \<in> fst ` set c \<Longrightarrow> n \<in> fst ` set c'"
proof (induction r arbitrary: i c j c')
  case (Seq r1 r2)
  from Seq.prems(1) obtain k d where
    p: "(k, d) \<in> set (paths L f r1 t (i, c))" "(j, c') \<in> set (paths L f r2 t (k, d))"
    by (auto simp: mem_Seq)
  show ?case
  proof (cases "must r2 n")
    case True
    then show ?thesis using Seq.IH(2) [OF p(2)] by simp
  next
    case False
    then have "must r1 n \<or> n \<in> fst ` set c" using Seq.prems(2) by simp
    from Seq.IH(1) [OF p(1) this] have "n \<in> fst ` set d" .
    then show ?thesis using Seq.IH(2) [OF p(2)] by simp
  qed
next
  case (Alt r1 r2)
  have h: "must r1 n \<or> n \<in> fst ` set c" "must r2 n \<or> n \<in> fst ` set c"
    using Alt.prems(2) by auto
  from Alt.prems(1) have "(j, c') \<in> set (paths L f r1 t (i, c)) \<or> (j, c') \<in> set (paths L f r2 t (i, c))"
    by (simp add: mem_Alt)
  then show ?case
  proof
    assume a: "(j, c') \<in> set (paths L f r1 t (i, c))"
    show ?thesis by (rule Alt.IH(1) [OF a h(1)])
  next
    assume a: "(j, c') \<in> set (paths L f r2 t (i, c))"
    show ?thesis by (rule Alt.IH(2) [OF a h(2)])
  qed
next
  case (Opt r)
  have h: "must r n \<or> n \<in> fst ` set c" using Opt.prems(2) by simp
  from Opt.prems(1) have "(j, c') \<in> set (paths L f r t (i, c)) \<or> (j, c') = (i, c)"
    by (simp add: mem_Opt)
  then show ?case
  proof
    assume a: "(j, c') \<in> set (paths L f r t (i, c))"
    show ?thesis by (rule Opt.IH [OF a h])
  next
    assume "(j, c') = (i, c)"
    then show ?thesis using Opt.prems(2) by simp
  qed
next
  case (Group k r)
  from Group.prems(1) obtain d where d: "(j, d) \<in> set (paths L f r t (i, c))" "c' = (k, i, j) # d"
    by (auto simp: mem_Group)
  show ?case
  proof (cases "k = n")
    case True
    then show ?thesis using d(2) by simp
  next
    case False
    then have "must r n \<or> n \<in> fst ` set c" using Group.prems(2) by simp
    from Group.IH [OF d(1) this] show ?thesis using d(2) by simp
  qed
qed (auto simp: mem_paths)

lemma finditer_group:
  assumes "m \<in> set (finditer L f r t)" and "must r n"
  shows "\<exists>g. group t m n = Some g"
proof -
  from finditer_from_set [of m L f r t 0] assms(1) obtain q where
    "match_at L f r t q = Some m" by (auto simp: finditer_def)
  from match_at_Some [OF this] have "(m_end m, m_caps m) \<in> set (paths L f r t (m_start m, []))"
    by simp
  from paths_must [OF this, of n] assms(2) have "n \<in> fst ` set (m_caps m)" by simp
  then have "map_of (m_caps m) n \<noteq> None" by (simp add: map_of_eq_None_iff)
  then show ?thesis by (auto simp: group_def)
qed

lemma outcome_bind:
  "outcome E x \<Longrightarrow> (\<And>v. x = Some (Inr v) \<Longrightarrow> outcome E (f v)) \<Longrightarrow> outcome E (ret_bind x f)"
  by (auto simp: outcome_def ret_bind_def split: sum.splits)

lemma outcome_Inr [simp]: "outcome E (Some (Inr v))"
  by (simp add: outcome_def)

lemma outcome_total: "\<exists>r. y = Inr r \<Longrightarrow> outcome E (Some y)"
  by (auto simp: outcome_def)

lemma sub_fn_outcome:
  "(\<And>m. m \<in> set ms \<Longrightarrow> outcome E (rp m)) \<Longrightarrow> outcome E (sub_fn rp t pos ms)"
proof (induction ms arbitrary: pos)
  case Nil
  show ?case by simp
next
  case (Cons m ms)
  show ?case
    unfolding sub_fn.simps
    by (intro outcome_bind Cons.prems Cons.IH outcome_Inr) simp_all
qed

lemma re_sub_fn_outcome:
  "(\<And>m. m \<in> set (finditer L f r t) \<Longrightarrow> outcome E (rp t m)) \<Longrightarrow> outcome E (re_sub_fn L f r rp t)"
  unfolding re_sub_fn_def by (rule sub_fn_outcome)

lemma to_chem_total: "\<exists>r. to_chem L s = Inr r"
proof (induction s)
  case Nil
  show ?case by (simp add: to_chem_def)
next
  case (Cons x s)
  then obtain r where r: "to_chem L s = Inr r" by blast
  obtain g where g: "to_subscript [x] = Inr g" using to_subscript_total by blast
  show ?case using r g by (simp add: to_chem_def)
qed

lemma to_math_outcome: "python_like L \<Longrightarrow> outcome {RecursionError, IndexError, ValueError} (to_math L t)"
  using to_math_ok [of L t] by (auto simp: outcome_def)

lemma must_patterns:
  "must (span_re name) 1" "must link_bars_re 1" "must link_bars_re 2" "must link_re 3"
  "must simple_link_re 1" "must url_re 2"
  by (simp_all add: span_re_def link_bars_re_def link_re_def simple_link_re_def url_re_def seqs_def)

lemma clean_tags_outcome:
  assumes L: "python_like L" and rec: "\<And>g ns. outcome {RecursionError, IndexError, ValueError} (rec g ns)"
  shows "outcome {RecursionError, IndexError, ValueError} (clean_tags L rec t)"
proof -
  let ?E = "{RecursionError, IndexError, ValueError}"
  have sup: "\<And>t m. m \<in> set (finditer L flags_si (span_re ''sup'') t) \<Longrightarrow> outcome ?E (repl_1_sup rec t m)"
    using finditer_group [OF _ must_patterns(1)] to_superscript_total
    by (fastforce simp: repl_1_sup_def intro!: outcome_bind rec outcome_total)
  have sub: "\<And>t m. m \<in> set (finditer L flags_si (span_re ''sub'') t) \<Longrightarrow> outcome ?E (repl_1_sub rec t m)"
    using finditer_group [OF _ must_patterns(1)] to_subscript_total
    by (fastforce simp: repl_1_sub_def intro!: outcome_bind rec outcome_total)
  have chem: "\<And>t m. m \<in> set (finditer L flags_si (span_re ''chem'') t) \<Longrightarrow> outcome ?E (repl_1_chem L rec t m)"
    using finditer_group [OF _ must_patterns(1)] to_chem_total
    by (fastforce simp: repl_1_chem_def intro!: outcome_bind rec outcome_total)
  have math: "\<And>t m. m \<in> set (finditer L flags_si (span_re ''math'') t) \<Longrightarrow> outcome ?E (repl_1_math L t m)"
    using finditer_group [OF _ must_patterns(1)] to_math_outcome [OF L]
    by (fastforce simp: repl_1_math_def)
  show ?thesis
    unfolding clean_tags_def
    by (intro outcome_bind outcome_Inr re_sub_fn_outcome sup sub chem math)
qed

lemma clean_links_outcome:
  assumes rec: "\<And>g ns. outcome {RecursionError, IndexError, ValueError} (rec g ns)"
  shows "outcome {RecursionError, IndexError, ValueError} (clean_links L rec t)"
proof -
  let ?E = "{RecursionError, IndexError, ValueError}"
  have bars: "\<And>t m. m \<in> set (finditer L flags_s link_bars_re t) \<Longrightarrow> outcome ?E (repl_link_bars L rec t m)"
    using finditer_group [OF _ must_patterns(2)] rec
    by (fastforce simp: repl_link_bars_def)
  have link: "\<And>t m. m \<in> set (finditer L flags_s link_re t) \<Longrightarrow> outcome ?E (repl_link rec t m)"
    using finditer_group [OF _ must_patterns(4)] rec
    by (fastforce simp: repl_link_def)
  have simple: "\<And>t m. m \<in> set (finditer L flags_s simple_link_re t) \<Longrightarrow> outcome ?E (repl_1 rec t m)"
    using finditer_group [OF _ must_patterns(5)] rec
    by (fastforce simp: repl_1_def)
  have url: "\<And>t m. m \<in> set (finditer L no_flags url_re t) \<Longrightarrow> outcome ?E (repl_2 rec t m)"
    using finditer_group [OF _ must_patterns(6)] rec
    by (fastforce simp: repl_2_def)
  show ?thesis
    unfolding clean_links_def
    by (intro outcome_bind outcome_Inr re_sub_fn_outcome bars link simple url)
qed

lemma clean_value_outcome:
  assumes L: "python_like L"
  shows "outcome {RecursionError, IndexError, ValueError} (clean_value L d WiktionaryConfig t ns)"
proof (induction d arbitrary: t ns)
  case 0
  show ?case by (simp add: outcome_def)
next
  case (Suc d)
  show ?case
    unfolding clean_value.simps
    by (simp, intro outcome_bind outcome_Inr clean_tags_outcome [OF L] clean_links_outcome Suc.IH)
qed

section \<open>Totality\<close>

text \<open>
  \<^verbatim>\<open>to_math\<close> raises IndexError on a text that holds a code point of the placeholder
  range, here U+10203E alone: no placeholder has been allocated, and \<^verbatim>\<open>expand\<close> indexes
  the empty \<^verbatim>\<open>magic_vec\<close> (line 605). \<^verbatim>\<open>clean_value\<close> hands the content of \<^verbatim>\<open><math>\<close> to
  \<^verbatim>\<open>to_math\<close> and raises with it. The callers of the module are to keep these code
  points out of its input.
\<close>

lemma to_math_raises_on_placeholder:
  "to_math cpython [0x10203E] = Some (Inl IndexError) \<and>
   clean_value cpython 1000 WiktionaryConfig (u ''<math>'' @ [0x10203E] @ u ''</math>'') False =
     Some (Inl IndexError)"
  by code_simp

text \<open>
  \<^verbatim>\<open>to_superscript\<close>, \<^verbatim>\<open>to_subscript\<close> and \<^verbatim>\<open>to_chem\<close> return a string on every string.
  \<^verbatim>\<open>to_math\<close> terminates on every string; it returns a string or raises IndexError or
  ValueError, and it returns a string on every text that holds no code point of the
  placeholder range and is short enough for its placeholders to be numbered below
  \<^verbatim>\<open>0x110000\<close>. \<^verbatim>\<open>clean_value\<close>, with \<open>d\<close> nested calls allowed, returns a string, raises
  what \<^verbatim>\<open>to_math\<close> raises, or uses up the calls allowed; the groups that its replacement
  functions read are groups that every match has.
\<close>

lemma entry_points_outcome:
  assumes "python_like L"
  shows "(\<exists>r. to_superscript text = Inr r) \<and> (\<exists>r. to_subscript text = Inr r) \<and>
         (\<exists>r. to_chem L text = Inr r) \<and>
         (\<exists>res. to_math L text = Some res \<and>
            (res = Inl IndexError \<or> res = Inl ValueError \<or> (\<exists>r. res = Inr r))) \<and>
         (magic_free L text \<and> MAGIC_FIRST L + int (length text) \<le> 0x110000 \<longrightarrow>
            (\<exists>r. to_math L text = Some (Inr r))) \<and>
         (\<exists>res. clean_value L d WiktionaryConfig text no_strip = Some res \<and>
            (res = Inl RecursionError \<or> res = Inl IndexError \<or> res = Inl ValueError \<or>
             (\<exists>r. res = Inr r)))"
proof -
  have 1: "\<exists>res. to_math L text = Some res \<and>
            (res = Inl IndexError \<or> res = Inl ValueError \<or> (\<exists>r. res = Inr r))"
    using to_math_ok [OF assms, of "text"] by auto
  have 2: "magic_free L text \<and> MAGIC_FIRST L + int (length text) \<le> 0x110000 \<longrightarrow>
            (\<exists>r. to_math L text = Some (Inr r))"
    using to_math_ok [OF assms, of "text"] by auto
  have 3: "\<exists>res. clean_value L d WiktionaryConfig text no_strip = Some res \<and>
            (res = Inl RecursionError \<or> res = Inl IndexError \<or> res = Inl ValueError \<or>
             (\<exists>r. res = Inr r))"
    using clean_value_outcome [OF assms, of d "text" no_strip]
    by (auto simp: outcome_def) (metis sum.exhaust_sel sum.collapse(1))
  show ?thesis
    using to_superscript_total to_subscript_total to_chem_total 1 2 3 by blast
qed

section \<open>Superscripts and subscripts in a value\<close>

text \<open>
  C6. \<^verbatim>\<open><sup>2</sup>\<close> becomes the superscript two, \<^verbatim>\<open><sub>x</sub>\<close> the subscript x and
  an empty \<^verbatim>\<open><sup></sup>\<close> nothing, as claimed, and a span \<^verbatim>\<open><sup>\<close> whose content begins
  with a stray closing tag is converted: \<^verbatim>\<open><sup></sub>x</sup>\<close> becomes the superscript x.
  The pattern of line 781 for an empty \<^verbatim>\<open><sub>\<close> pair closes with \<^verbatim>\<open>sup\<close>, not \<^verbatim>\<open>sub\<close>:
  it removes \<^verbatim>\<open><sub></sup>\<close>, so that the span \<^verbatim>\<open><sub></sup>x</sub>\<close>, whose cleaned content
  is \<^verbatim>\<open>x\<close>, loses its opening tag before line 782 and comes out as \<^verbatim>\<open>x\<close>, not as the
  subscript x.
\<close>

theorem sub_pair_pattern_closes_with_sup:
  "clean_value cpython 1000 WiktionaryConfig (u ''<sup>2</sup>'') False = Some (Inr [0xB2]) \<and>
   clean_value cpython 1000 WiktionaryConfig (u ''<sub>x</sub>'') False = Some (Inr [0x2093]) \<and>
   clean_value cpython 1000 WiktionaryConfig (u ''<sup></sup>'') False = Some (Inr []) \<and>
   clean_value cpython 1000 WiktionaryConfig (u ''<sup></sub>x</sup>'') False = Some (Inr [0x2E3]) \<and>
   clean_value cpython 1000 WiktionaryConfig (u ''</sup>x'') False = Some (Inr (u ''x'')) \<and>
   to_subscript (u ''x'') = Inr [0x2093] \<and>
   clean_value cpython 1000 WiktionaryConfig (u ''<sub></sup>x</sub>'') False = Some (Inr (u ''x''))"
  by code_simp

section \<open>Piped links\<close>







section \<open>Patterns that cannot match\<close>

lemma run_pos: "0 < run L f a t i \<Longrightarrow> i < length t \<and> atom_ok L f a (t ! i)"
  using run_ok [of 0 L f a t i] by simp

lemma paths_first:
  "(j, c') \<in> set (paths L f r t (i, c)) \<Longrightarrow>
     (nullable r \<and> j = i) \<or> (i < length t \<and> first_ok L f r (t ! i))"
proof (induction r arbitrary: i c j c')
  case (Seq r1 r2)
  from Seq.prems obtain k d where
    p: "(k, d) \<in> set (paths L f r1 t (i, c))" "(j, c') \<in> set (paths L f r2 t (k, d))"
    by (auto simp: mem_Seq)
  from Seq.IH(1) [OF p(1)] Seq.IH(2) [OF p(2)] show ?case by auto
next
  case (Alt r1 r2)
  from Alt.prems have "(j, c') \<in> set (paths L f r1 t (i, c)) \<or> (j, c') \<in> set (paths L f r2 t (i, c))"
    by (simp add: mem_Alt)
  then show ?case using Alt.IH(1) [of j c' i c] Alt.IH(2) [of j c' i c] by auto
next
  case (Opt r)
  from Opt.prems have "(j, c') \<in> set (paths L f r t (i, c)) \<or> (j, c') = (i, c)"
    by (simp add: mem_Opt)
  then show ?case using Opt.IH [of j c' i c] by auto
next
  case (Group n r)
  from Group.prems obtain d where "(j, d) \<in> set (paths L f r t (i, c))"
    by (auto simp: mem_Group)
  from Group.IH [OF this] show ?case by simp
next
  case (Star a)
  then show ?case using run_pos [of L f a t i] by (cases "j = i") (auto simp: mem_Star)
next
  case (Plus a)
  then show ?case using run_pos [of L f a t i] by (auto simp: mem_Plus)
next
  case (LazyStar a)
  then show ?case using run_pos [of L f a t i] by (cases "j = i") (auto simp: mem_LazyStar)
next
  case (LazyPlus a)
  then show ?case using run_pos [of L f a t i] by (auto simp: mem_LazyPlus)
qed (auto simp: mem_paths)

lemma finditer_from_no_match:
  "(\<And>q. match_at L f r t q = None) \<Longrightarrow> finditer_from L f r t p = []"
proof (induction L f r t p rule: finditer_from.induct)
  case (1 L f r t p)
  show ?case
  proof (cases "length t < p")
    case True
    then show ?thesis by simp
  next
    case False
    have n: "match_at L f r t p = None" by (rule "1.prems")
    from "1.IH"(1) [OF False n "1.prems"] show ?thesis using False n by simp
  qed
qed

lemma match_at_None: "match_at L f r t q = None \<longleftrightarrow> paths L f r t (q, []) = []"
  by (auto simp: match_at_def split: list.splits)

lemma no_match_sub:
  assumes "\<And>q. match_at L f r t q = None"
  shows "re_sub L f r new t = t" and "re_sub_fn L f r rp t = Some (Inr t)"
  using finditer_from_no_match [OF assms, of 0] by (simp_all add: re_sub_def re_sub_fn_def finditer_def)

lemma inert:
  assumes t: "list_all (\<lambda>x. \<not> special L x) t" and n: "\<not> nullable r"
    and f: "\<And>x. first_ok L f r x \<Longrightarrow> special L x"
  shows "match_at L f r t q = None"
proof -
  have "paths L f r t (q, []) = []"
  proof (rule ccontr)
    assume "paths L f r t (q, []) \<noteq> []"
    then obtain j c where "(j, c) \<in> set (paths L f r t (q, []))"
      by (cases "paths L f r t (q, [])") auto
    from paths_first [OF this] n have "q < length t" "first_ok L f r (t ! q)" by auto
    then show False using f t by (auto simp: list_all_length)
  qed
  then show ?thesis by (simp add: match_at_None)
qed

lemma inert_sub:
  assumes t: "list_all (\<lambda>x. \<not> special L x) t" and n: "\<not> nullable r"
    and f: "\<And>x. first_ok L f r x \<Longrightarrow> special L x"
  shows "re_sub L f r new t = t" and "re_sub_fn L f r rp t = Some (Inr t)"
  using no_match_sub(1) [of L f r t new] no_match_sub(2) [of L f r t rp] inert [OF t n f] by simp_all

lemma si_flags [simp]: "ignorecase flags_si = True" "ignorecase flags_s = False"
  by (simp_all add: flags_si_def flags_s_def)

lemma tag_patterns:
  "\<not> nullable (open_tag n)" "first_ok L flags_si (open_tag n) x \<Longrightarrow> special L x"
  "\<not> nullable (empty_pair_re n k)" "first_ok L flags_si (empty_pair_re n k) x \<Longrightarrow> special L x"
  "\<not> nullable (span_re n)" "first_ok L flags_si (span_re n) x \<Longrightarrow> special L x"
  "\<not> nullable ref_re" "first_ok L flags_si ref_re x \<Longrightarrow> special L x"
  "\<not> nullable br_re" "first_ok L flags_si br_re x \<Longrightarrow> special L x"
  "\<not> nullable block_re" "first_ok L flags_si block_re x \<Longrightarrow> special L x"
  "\<not> nullable cell_re" "first_ok L flags_si cell_re x \<Longrightarrow> special L x"
  "\<not> nullable table_re" "first_ok L flags_s table_re x \<Longrightarrow> special L x"
  "\<not> nullable template_re" "first_ok L no_flags template_re x \<Longrightarrow> special L x"
  "\<not> nullable any_open_re" "first_ok L flags_s any_open_re x \<Longrightarrow> special L x"
  "\<not> nullable any_close_re" "first_ok L flags_s any_close_re x \<Longrightarrow> special L x"
  by (simp_all add: open_tag_def empty_pair_re_def span_re_def ref_re_def br_re_def block_re_def
      cell_re_def table_re_def template_re_def any_open_re_def any_close_re_def
      seqs_def lits_def lit_def special_def)

lemma link_patterns:
  "\<not> nullable category_re" "first_ok L flags_si category_re x \<Longrightarrow> special L x"
  "\<not> nullable link_bars_re" "first_ok L flags_s link_bars_re x \<Longrightarrow> special L x"
  "\<not> nullable link_re" "first_ok L flags_s link_re x \<Longrightarrow> special L x"
  "\<not> nullable simple_link_re" "first_ok L flags_s simple_link_re x \<Longrightarrow> special L x"
  "\<not> nullable url_re" "first_ok L no_flags url_re x \<Longrightarrow> special L x"
  "\<not> nullable edit_re" "first_ok L no_flags edit_re x \<Longrightarrow> special L x"
  by (simp_all add: category_re_def link_bars_re_def link_re_def simple_link_re_def url_re_def
      edit_re_def seqs_def lits_def lit_def special_def)

lemma clean_tags_inert:
  assumes t: "list_all (\<lambda>x. \<not> special L x) t"
  shows "clean_tags L rec t = Some (Inr t)"
proof -
  have s: "\<And>new. re_sub L no_flags template_re new t = t"
    "\<And>new. re_sub L flags_s table_re new t = t"
    "\<And>new. re_sub L flags_si ref_re new t = t"
    "\<And>new. re_sub L flags_si br_re new t = t"
    "\<And>new. re_sub L flags_si block_re new t = t"
    "\<And>new. re_sub L flags_si cell_re new t = t"
    "\<And>new n k. re_sub L flags_si (empty_pair_re n k) new t = t"
    "\<And>new. re_sub L flags_s any_open_re new t = t"
    "\<And>new. re_sub L flags_s any_close_re new t = t"
    "\<And>n rp. re_sub_fn L flags_si (span_re n) rp t = Some (Inr t)"
    by (rule inert_sub [OF t], rule tag_patterns, (rule tag_patterns, assumption))+
  show ?thesis by (simp add: clean_tags_def s ret_bind_def)
qed

lemma clean_links_inert:
  assumes t: "list_all (\<lambda>x. \<not> special L x) t"
  shows "clean_links L rec t = Some (Inr t)"
proof -
  have s: "\<And>new. re_sub L flags_si category_re new t = t"
    "\<And>new. re_sub L no_flags edit_re new t = t"
    "\<And>rp. re_sub_fn L flags_s link_bars_re rp t = Some (Inr t)"
    "\<And>rp. re_sub_fn L flags_s link_re rp t = Some (Inr t)"
    "\<And>rp. re_sub_fn L flags_s simple_link_re rp t = Some (Inr t)"
    "\<And>rp. re_sub_fn L no_flags url_re rp t = Some (Inr t)"
    by (rule inert_sub [OF t], rule link_patterns, (rule link_patterns, assumption))+
  show ?thesis by (simp add: clean_links_def s ret_bind_def)
qed

section \<open>A settled string is left as it is\<close>

lemma no_pair_nth:
  assumes "no_pair P Q s" and "Suc i < length s"
  shows "\<not> (P (s ! i) \<and> Q (s ! Suc i))"
proof -
  have "i < length (zip s (tl s))" using assms(2) by simp
  moreover have "zip s (tl s) ! i = (s ! i, s ! Suc i)" using assms(2) by (simp add: nth_tl)
  ultimately show ?thesis using assms(1) by (auto simp: no_pair_def list_all_length)
qed

lemma slice_join:
  assumes "pos \<le> s" and "s \<le> e" and "e \<le> length t"
  shows "slice t pos s @ slice t s e @ drop e t = drop pos t"
proof -
  have 1: "slice t s e @ drop e t = drop s t"
  proof -
    have "drop e t = drop (e - s) (drop s t)" using assms(2) by simp
    then show ?thesis unfolding slice_def by (metis append_take_drop_id)
  qed
  have "drop s t = drop (s - pos) (drop pos t)" using assms(1) by simp
  then have "slice t pos s @ drop s t = drop pos t" unfolding slice_def by (metis append_take_drop_id)
  then show ?thesis using 1 by simp
qed

lemma sub_str_same:
  "chained (length t) pos ms \<Longrightarrow> (\<And>m. m \<in> set ms \<Longrightarrow> slice t (m_start m) (m_end m) = new) \<Longrightarrow>
   sub_str new t pos ms = drop pos t"
proof (induction ms arbitrary: pos)
  case Nil
  show ?case by simp
next
  case (Cons m ms)
  have b: "pos \<le> m_start m" "m_start m < m_end m" "m_end m \<le> length t" "chained (length t) (m_end m) ms"
    using Cons.prems(1) by auto
  have "sub_str new t (m_end m) ms = drop (m_end m) t"
    by (rule Cons.IH [OF b(4)]) (use Cons.prems(2) in auto)
  moreover have "slice t (m_start m) (m_end m) = new" using Cons.prems(2) by simp
  ultimately have "sub_str new t pos (m # ms) =
      slice t pos (m_start m) @ slice t (m_start m) (m_end m) @ drop (m_end m) t" by simp
  also have "\<dots> = drop pos t" using b by (intro slice_join) auto
  finally show ?case .
qed

lemma slice_one: "q < length t \<Longrightarrow> slice t q (Suc q) = [t ! q]"
  by (simp add: slice_def take_Suc_conv_app_nth [of 0] hd_drop_conv_nth take_Suc)

lemma re_sub_same:
  assumes "\<And>q m. match_at L f r t q = Some m \<Longrightarrow> m_end m = Suc q \<and> q < length t \<and> [t ! q] = new"
  shows "re_sub L f r new t = t"
proof -
  have "chained (length t) 0 (finditer_from L f r t 0)"
    by (rule finditer_from_chained) (use assms in auto)
  moreover have "\<And>m. m \<in> set (finditer_from L f r t 0) \<Longrightarrow> slice t (m_start m) (m_end m) = new"
  proof -
    fix m assume "m \<in> set (finditer_from L f r t 0)"
    from finditer_from_set [OF this] obtain q where q: "match_at L f r t q = Some m" by blast
    from match_at_Some [OF q] assms [OF q] show "slice t (m_start m) (m_end m) = new"
      by (simp add: slice_one)
  qed
  ultimately have "sub_str new t 0 (finditer_from L f r t 0) = drop 0 t" by (rule sub_str_same)
  then show ?thesis by (simp add: re_sub_def finditer_def)
qed

lemma quotes_none:
  assumes "no_pair (\<lambda>x. x = 0x27) (\<lambda>y. y = 0x27) t"
  shows "match_at L no_flags quotes_re t q = None"
proof -
  have "paths L no_flags quotes_re t (q, []) = []"
  proof (rule ccontr)
    assume "paths L no_flags quotes_re t (q, []) \<noteq> []"
    then obtain j c where "(j, c) \<in> set (paths L no_flags quotes_re t (q, []))"
      by (cases "paths L no_flags quotes_re t (q, [])") auto
    then have a: "q < length t" "t ! q = 0x27" and r: "0 < run L no_flags (Chr 0x27) t (Suc q)"
      by (auto simp: quotes_re_def mem_paths)
    from run_pos [OF r] have "Suc q < length t" "t ! Suc q = 0x27" by auto
    then show False using no_pair_nth [OF assms, of q] a by simp
  qed
  then show ?thesis by (simp add: match_at_None)
qed

lemma nbsp_none:
  assumes "list_all (\<lambda>x. x \<noteq> 0xA0) t"
  shows "match_at L no_flags nbsp_re t q = None"
proof -
  have "paths L no_flags nbsp_re t (q, []) = []"
  proof (rule ccontr)
    assume "paths L no_flags nbsp_re t (q, []) \<noteq> []"
    then obtain j c where "(j, c) \<in> set (paths L no_flags nbsp_re t (q, []))"
      by (cases "paths L no_flags nbsp_re t (q, [])") auto
    then have "q < length t" "t ! q = 0xA0" by (auto simp: nbsp_re_def mem_paths)
    then show False using assms by (auto simp: list_all_length)
  qed
  then show ?thesis by (simp add: match_at_None)
qed

lemma blanks_match:
  assumes a: "list_all (\<lambda>x. x \<noteq> 0x09 \<and> x \<noteq> 0x0D) t"
    and np: "no_pair (\<lambda>x. x = 0x20) (\<lambda>y. y = 0x20 \<or> y = 0x0A) t"
    and m: "match_at L no_flags blanks_re t q = Some m"
  shows "m_end m = Suc q \<and> q < length t \<and> [t ! q] = u '' ''"
proof -
  let ?a = "In [CChr 0x20, CChr 0x09, CChr 0x0D]"
  have ok: "\<And>k. k < length t \<Longrightarrow> atom_ok L no_flags ?a (t ! k) \<Longrightarrow> t ! k = 0x20"
    using a by (auto simp: list_all_length)
  from match_at_Some [OF m] have e: "q < m_end m" "m_end m \<le> q + run L no_flags ?a t q"
    by (auto simp: blanks_re_def mem_paths)
  then have "0 < run L no_flags ?a t q" by simp
  from run_pos [OF this] have q: "q < length t" "t ! q = 0x20" using ok by auto
  have "m_end m = Suc q"
  proof (rule ccontr)
    assume "m_end m \<noteq> Suc q"
    then have "1 < run L no_flags ?a t q" using e by simp
    from run_ok [OF this] have "Suc q < length t" "t ! Suc q = 0x20" using ok by auto
    then show False using no_pair_nth [OF np, of q] q by simp
  qed
  then show ?thesis using q by (simp add: u_def)
qed

lemma newlines_match:
  assumes np: "no_pair (\<lambda>x. x = 0x20) (\<lambda>y. y = 0x20 \<or> y = 0x0A) t"
    and nn: "no_pair (\<lambda>x. x = 0x0A) (\<lambda>y. y = 0x0A) t"
    and m: "match_at L no_flags newlines_re t q = Some m"
  shows "m_end m = Suc q \<and> q < length t \<and> [t ! q] = [0x0A]"
proof -
  from match_at_Some [OF m] obtain k where
    k: "q \<le> k" "k \<le> q + run L no_flags (Chr 0x20) t q"
      "k < m_end m" "m_end m \<le> k + run L no_flags (Chr 0x0A) t k"
    by (auto simp: newlines_re_def mem_paths)
  then have "0 < run L no_flags (Chr 0x0A) t k" by simp
  from run_pos [OF this] have nl: "k < length t" "t ! k = 0x0A" by auto
  have kq: "k = q"
  proof (rule ccontr)
    assume "k \<noteq> q"
    then have "k - 1 - q < run L no_flags (Chr 0x20) t q" using k by simp
    from run_ok [OF this] have "t ! (k - 1) = 0x20" using k \<open>k \<noteq> q\<close> by simp
    then show False using no_pair_nth [OF np, of "k - 1"] nl k \<open>k \<noteq> q\<close> by simp
  qed
  have "m_end m = Suc q"
  proof (rule ccontr)
    assume "m_end m \<noteq> Suc q"
    then have "1 < run L no_flags (Chr 0x0A) t q" using k kq by simp
    from run_ok [OF this] have "Suc q < length t" "t ! Suc q = 0x0A" by auto
    then show False using no_pair_nth [OF nn, of q] nl kq by simp
  qed
  then show ?thesis using nl kq by simp
qed

lemma clean_text_settled:
  assumes s: "settled L s" and st: "no_strip \<or> strip L s = s"
  shows "clean_text L s no_strip = s"
proof -
  have q: "re_sub L no_flags quotes_re [] s = s"
    using s by (intro no_match_sub(1) quotes_none) (simp add: settled_def)
  have n: "re_sub L no_flags nbsp_re (u '' '') s = s"
    using s by (intro no_match_sub(1) nbsp_none) (simp add: settled_def list_all_iff)
  have b: "re_sub L no_flags blanks_re (u '' '') s = s"
    using s by (intro re_sub_same blanks_match) (simp_all add: settled_def list_all_iff)
  have l: "re_sub L no_flags newlines_re [0x0A] s = s"
    using s by (intro re_sub_same newlines_match) (simp_all add: settled_def)
  have e: "unescape L s = s" "normalize_NFC L s = s" using s by (simp_all add: settled_def)
  show ?thesis using st by (auto simp: clean_text_def Let_def q n b l e)
qed

lemma settled_plain: "settled L s \<Longrightarrow> list_all (\<lambda>x. \<not> special L x) s"
  by (simp add: settled_def list_all_iff)

text \<open>
  \<^verbatim>\<open>clean_value\<close> returns a settled string as it is (stripped, unless \<^verbatim>\<open>no_strip\<close> is
  set).
\<close>

lemma clean_value_settled:
  assumes "settled L s" and "no_strip \<or> strip L s = s"
  shows "clean_value L (Suc d) WiktionaryConfig s no_strip = Some (Inr s) \<and>
         ret_bind (clean_value L (Suc d) WiktionaryConfig s no_strip)
           (\<lambda>r. clean_value L (Suc d) WiktionaryConfig r no_strip) =
         clean_value L (Suc d) WiktionaryConfig s no_strip"
proof -
  have "clean_value L (Suc d) WiktionaryConfig s no_strip = Some (Inr s)"
    using clean_tags_inert [OF settled_plain [OF assms(1)]]
      clean_links_inert [OF settled_plain [OF assms(1)]] clean_text_settled [OF assms]
    by (simp add: ret_bind_def)
  then show ?thesis by (simp add: ret_bind_def)
qed

section \<open>Cleaning a string without markup\<close>

text \<open>
  The four substitutions of lines 806 to 812 as functions on lists, and what holds of
  their results on every string: no two apostrophes in a row are left, no non-breaking
  space, tab or carriage return, no two spaces in a row and no space before a newline.
  Two newlines in a row can be left, by a newline that follows a match of \<^verbatim>\<open> *\n+\<close>
  after some spaces.
\<close>

declare subs.simps [simp del]
















lemma no_pair_Nil [simp]: "no_pair P Q []"
  by (simp add: no_pair_def)











lemma subs_Nil [simp]: "subs mu new [] = []"
  by (simp add: subs.simps)




















section \<open>A text of many brace groups\<close>

text \<open>
  Line 619 numbers the placeholders from \<^verbatim>\<open>MAGIC_FIRST\<close> on, one for every brace group,
  without a bound. What \<^verbatim>\<open>to_math\<close> makes of \<open>n\<close> groups \<^verbatim>\<open>{a}\<close> in a row is computed
  here for every \<open>n\<close>: one pass of \<^verbatim>\<open>math_magic\<close> replaces the groups by the first \<open>n\<close>
  placeholders, or raises ValueError when \<^verbatim>\<open>chr\<close> is asked for a code point above
  U+10FFFF; the loop over the tokens then expands the placeholders up to
  \<^verbatim>\<open>MAGIC_LAST\<close> and keeps the others as they are.
\<close>

lemma length_brace_groups [simp]: "length (brace_groups n) = 3 * n"
  by (induction n) (simp_all add: brace_groups_def)

lemma brace_groups_Suc: "brace_groups (Suc n) = [0x7B, 0x61, 0x7D] @ brace_groups n"
  by (simp add: brace_groups_def)

lemma brace_groups_nth:
  "j < n \<Longrightarrow> brace_groups n ! (3 * j) = 0x7B \<and> brace_groups n ! (3 * j + 1) = 0x61 \<and>
     brace_groups n ! (3 * j + 2) = 0x7D"
proof (induction n arbitrary: j)
  case 0
  then show ?case by simp
next
  case (Suc n)
  show ?case
  proof (cases j)
    case 0
    then show ?thesis by (simp add: brace_groups_Suc)
  next
    case (Suc k)
    then have k: "k < n" using Suc.prems by simp
    have "3 * j = Suc (Suc (Suc (3 * k)))" using Suc by simp
    then show ?thesis using Suc.IH [OF k] by (simp add: brace_groups_Suc)
  qed
qed

lemma match_at_unique:
  assumes "\<And>j c. (j, c) \<in> set (paths L f r t (q, [])) \<longleftrightarrow> j = j0 \<and> c = c0"
  shows "match_at L f r t q = Some \<lparr>m_start = q, m_end = j0, m_caps = c0\<rparr>"
proof -
  have in0: "(j0, c0) \<in> set (paths L f r t (q, []))" using assms by simp
  show ?thesis
  proof (cases "paths L f r t (q, [])")
    case Nil
    then show ?thesis using in0 by simp
  next
    case (Cons x xs)
    then have "(fst x, snd x) \<in> set (paths L f r t (q, []))" by simp
    then have "fst x = j0 \<and> snd x = c0" by (simp only: assms)
    then have "x = (j0, c0)" by (metis prod.collapse)
    then show ?thesis using Cons by (simp add: match_at_def)
  qed
qed

lemma brace_iff:
  "(j, c) \<in> set (paths L no_flags (brace_re l r) t (q, [])) \<longleftrightarrow>
     q < length t \<and> t ! q = l \<and>
     (\<exists>e. Suc q < e \<and> span_of L (NotIn [CChr l, CChr r]) t (Suc q) e \<and> e < length t \<and> t ! e = r \<and>
          j = Suc e \<and> c = [(1, Suc q, e)])"
  by (auto simp: brace_re_def seqs_def mem_nf atom_simps)

lemma brace_at:
  assumes "j < n"
  shows "match_at L no_flags (brace_re 0x7B 0x7D) (brace_groups n) (3 * j) =
     Some \<lparr>m_start = 3 * j, m_end = 3 * j + 3, m_caps = [(1, 3 * j + 1, 3 * j + 2)]\<rparr>"
proof (rule match_at_unique)
  fix j' c
  note N = brace_groups_nth [OF assms]
  let ?t = "brace_groups n"
  have len: "3 * j + 2 < length ?t" using assms by simp
  show "(j', c) \<in> set (paths L no_flags (brace_re 0x7B 0x7D) ?t (3 * j, [])) \<longleftrightarrow>
      j' = 3 * j + 3 \<and> c = [(1, 3 * j + 1, 3 * j + 2)]"
  proof
    assume "(j', c) \<in> set (paths L no_flags (brace_re 0x7B 0x7D) ?t (3 * j, []))"
    then obtain e where e: "Suc (3 * j) < e"
      "span_of L (NotIn [CChr 0x7B, CChr 0x7D]) ?t (Suc (3 * j)) e" "j' = Suc e" "c = [(1, Suc (3 * j), e)]"
      by (auto simp: brace_iff)
    have "e = 3 * j + 2"
    proof (rule ccontr)
      assume "e \<noteq> 3 * j + 2"
      then have "Suc (3 * j) \<le> 3 * j + 2 \<and> 3 * j + 2 < e" using e(1) by simp
      then have "atom_ok L no_flags (NotIn [CChr 0x7B, CChr 0x7D]) (?t ! (3 * j + 2))"
        using e(2) unfolding span_of_def by blast
      then show False using N by simp
    qed
    then show "j' = 3 * j + 3 \<and> c = [(1, 3 * j + 1, 3 * j + 2)]" using e by simp
  next
    assume a: "j' = 3 * j + 3 \<and> c = [(1, 3 * j + 1, 3 * j + 2)]"
    have "span_of L (NotIn [CChr 0x7B, CChr 0x7D]) ?t (Suc (3 * j)) (3 * j + 2)"
      unfolding span_of_def
    proof (intro conjI allI impI)
      show "Suc (3 * j) \<le> 3 * j + 2" by simp
    next
      fix x assume "Suc (3 * j) \<le> x \<and> x < 3 * j + 2"
      then have "x = 3 * j + 1" by simp
      then show "x < length ?t" using len by simp
    next
      fix x assume "Suc (3 * j) \<le> x \<and> x < 3 * j + 2"
      then have "x = 3 * j + 1" by simp
      then show "atom_ok L no_flags (NotIn [CChr 0x7B, CChr 0x7D]) (?t ! x)" using N by simp
    qed
    then show "(j', c) \<in> set (paths L no_flags (brace_re 0x7B 0x7D) ?t (3 * j, []))"
      unfolding brace_iff using a N len by (intro conjI exI [of _ "3 * j + 2"]) simp_all
  qed
qed

lemma match_at_first:
  assumes "\<not> nullable r" and "q < length t \<Longrightarrow> \<not> first_ok L f r (t ! q)"
  shows "match_at L f r t q = None"
proof -
  have "paths L f r t (q, []) = []"
  proof (rule ccontr)
    assume "paths L f r t (q, []) \<noteq> []"
    then obtain j c where "(j, c) \<in> set (paths L f r t (q, []))"
      by (cases "paths L f r t (q, [])") auto
    from paths_first [OF this] assms show False by auto
  qed
  then show ?thesis by (simp add: match_at_None)
qed

lemma brace_first: "\<not> nullable (brace_re l r)" "first_ok L no_flags (brace_re l r) x \<longleftrightarrow> x = l"
  by (simp_all add: brace_re_def seqs_def no_flags_def)

lemma brace_finditer_groups:
  "j \<le> n \<Longrightarrow> finditer_from L no_flags (brace_re 0x7B 0x7D) (brace_groups n) (3 * j) =
     map brace_m [j..<n]"
proof (induction "n - j" arbitrary: j)
  case 0
  then have j: "j = n" by simp
  have "match_at L no_flags (brace_re 0x7B 0x7D) (brace_groups n) (3 * n) = None"
    by (rule match_at_first) (simp_all add: brace_first)
  moreover have "finditer_from L no_flags (brace_re 0x7B 0x7D) (brace_groups n) (Suc (3 * n)) = []"
    by (subst finditer_from.simps) simp
  ultimately show ?case using j by (subst finditer_from.simps) (simp del: finditer_from.simps)
next
  case (Suc d)
  then have jn: "j < n" and d: "d = n - Suc j" and le: "Suc j \<le> n" by simp_all
  have s3: "3 * j + 3 = 3 * Suc j" by simp
  have "finditer_from L no_flags (brace_re 0x7B 0x7D) (brace_groups n) (3 * j) =
      brace_m j # finditer_from L no_flags (brace_re 0x7B 0x7D) (brace_groups n) (3 * j + 3)"
    using jn by (subst finditer_from.simps) (simp add: brace_at [OF jn] brace_m_def del: finditer_from.simps)
  then have "finditer_from L no_flags (brace_re 0x7B 0x7D) (brace_groups n) (3 * j) =
      brace_m j # finditer_from L no_flags (brace_re 0x7B 0x7D) (brace_groups n) (3 * Suc j)"
    unfolding s3 .
  also have "\<dots> = brace_m j # map brace_m [Suc j..<n]" using Suc.hyps(1) [OF d le] by simp
  also have "\<dots> = map brace_m [j..<n]" using jn by (simp add: upt_conv_Cons)
  finally show ?case .
qed

lemma marks_Suc: "marks L k (Suc n) = (MAGIC_FIRST L + int k) # marks L (Suc k) n"
proof -
  have "[0..<Suc n] = 0 # map Suc [0..<n]" by (simp add: upt_conv_Cons map_Suc_upt del: upt_Suc)
  then show ?thesis by (simp add: marks_def del: upt_Suc)
qed

lemma marks_0 [simp]: "marks L k 0 = []"
  by (simp add: marks_def)

lemma length_marks [simp]: "length (marks L k n) = n"
  by (simp add: marks_def)

lemma brace_group_a:
  "k < n \<Longrightarrow> group (brace_groups n) (brace_m k) 1 = Some [0x61]"
  using brace_groups_nth [of k n] slice_one [of "3 * k + 1" "brace_groups n"]
  by (simp add: group_def brace_m_def)

lemma pass_groups:
  assumes fn: "returns_a fn" and mf: "0 \<le> MAGIC_FIRST L"
  shows "j \<le> n \<Longrightarrow>
    (MAGIC_FIRST L + int (length (magic_vec st)) + int (n - j) \<le> 0x110000 \<longrightarrow>
       (\<exists>st'. re_sub_m (repl L fn (brace_groups n)) (brace_groups n) (3 * j) (map brace_m [j..<n]) st =
            Some (Inr (marks L (length (magic_vec st)) (n - j), st')) \<and>
          magic_vec st' = magic_vec st @ replicate (n - j) [0x61])) \<and>
    (MAGIC_FIRST L + int (length (magic_vec st)) \<le> 0x110000 \<and>
     0x110000 < MAGIC_FIRST L + int (length (magic_vec st)) + int (n - j) \<longrightarrow>
       re_sub_m (repl L fn (brace_groups n)) (brace_groups n) (3 * j) (map brace_m [j..<n]) st =
         Some (Inl ValueError))"
proof (induction "n - j" arbitrary: j st)
  case 0
  then show ?case by simp
next
  case (Suc d)
  let ?t = "brace_groups n" and ?mv = "magic_vec st"
  let ?magic = "MAGIC_FIRST L + int (length ?mv)"
  from Suc have jn: "j < n" and d: "d = n - Suc j" and le: "Suc j \<le> n" and nj: "n - j = Suc d"
    by simp_all
  have up: "[j..<n] = j # [Suc j..<n]" using jn by (simp add: upt_conv_Cons)
  have me: "m_end (brace_m j) = 3 * Suc j" "m_start (brace_m j) = 3 * j" by (simp_all add: brace_m_def)
  have sl: "slice ?t (3 * j) (3 * j) = []" by (simp add: slice_def)
  show ?case
  proof (cases "0x10FFFF < ?magic")
    case True
    have "repl L fn ?t (brace_m j) st = Some (Inl ValueError)"
      using True by (simp add: repl_def Let_def)
    then have "re_sub_m (repl L fn ?t) ?t (3 * j) (map brace_m [j..<n]) st = Some (Inl ValueError)"
      unfolding up by (simp add: ret_bind_def)
    then show ?thesis using True nj by simp
  next
    case False
    from fn obtain st1 where st1: "fn [0x61] st = Some (Inr ([0x61], st1))" "magic_vec st1 = ?mv"
      unfolding returns_a_def by blast
    let ?st2 = "st1\<lparr>magic_vec := magic_vec st1 @ [[0x61]]\<rparr>"
    have rp: "repl L fn ?t (brace_m j) st = Some (Inr ([?magic], ?st2))"
      using False mf brace_group_a [OF jn] st1 by (simp add: repl_def Let_def ret_bind_def)
    have l2: "length (magic_vec ?st2) = Suc (length ?mv)" using st1(2) by simp
    have step: "re_sub_m (repl L fn ?t) ?t (3 * j) (map brace_m [j..<n]) st =
        ret_bind (re_sub_m (repl L fn ?t) ?t (3 * Suc j) (map brace_m [Suc j..<n]) ?st2)
          (\<lambda>(rest, st''). Some (Inr (?magic # rest, st'')))"
      unfolding up using rp me sl by (simp add: ret_bind_def)
    note IH = Suc.hyps(1) [OF d le, of ?st2]
    show ?thesis
    proof (intro conjI impI)
      assume b: "?magic + int (n - j) \<le> 0x110000"
      then have "MAGIC_FIRST L + int (length (magic_vec ?st2)) + int (n - Suc j) \<le> 0x110000"
        using l2 jn by simp
      with IH obtain st' where
        r: "re_sub_m (repl L fn ?t) ?t (3 * Suc j) (map brace_m [Suc j..<n]) ?st2 =
              Some (Inr (marks L (length (magic_vec ?st2)) (n - Suc j), st'))"
           "magic_vec st' = magic_vec ?st2 @ replicate (n - Suc j) [0x61]"
        by blast
      have "re_sub_m (repl L fn ?t) ?t (3 * j) (map brace_m [j..<n]) st =
          Some (Inr (marks L (length ?mv) (n - j), st'))"
        unfolding step r(1) using nj d l2 by (simp add: ret_bind_def marks_Suc)
      moreover have "magic_vec st' = ?mv @ replicate (n - j) [0x61]"
        using r(2) st1(2) nj d by (simp add: replicate_append_same)
      ultimately show "\<exists>st'. re_sub_m (repl L fn ?t) ?t (3 * j) (map brace_m [j..<n]) st =
            Some (Inr (marks L (length ?mv) (n - j), st')) \<and>
          magic_vec st' = ?mv @ replicate (n - j) [0x61]" by blast
    next
      assume b: "?magic \<le> 0x110000 \<and> 0x110000 < ?magic + int (n - j)"
      then have "MAGIC_FIRST L + int (length (magic_vec ?st2)) \<le> 0x110000 \<and>
          0x110000 < MAGIC_FIRST L + int (length (magic_vec ?st2)) + int (n - Suc j)"
        using l2 jn False by simp
      with IH have "re_sub_m (repl L fn ?t) ?t (3 * Suc j) (map brace_m [Suc j..<n]) ?st2 =
          Some (Inl ValueError)" by blast
      then show "re_sub_m (repl L fn ?t) ?t (3 * j) (map brace_m [j..<n]) st = Some (Inl ValueError)"
        unfolding step by (simp add: ret_bind_def)
    qed
  qed
qed

lemma brace_finditer_all:
  "finditer L no_flags (brace_re 0x7B 0x7D) (brace_groups n) = map brace_m [0..<n]"
  using brace_finditer_groups [of 0 n L] by (simp add: finditer_def)

lemma marks_high: "0x100000 \<le> MAGIC_FIRST L \<Longrightarrow> x \<in> set (marks L k n) \<Longrightarrow> 0x100000 \<le> x"
  by (auto simp: marks_def)

lemma no_brace_finditer:
  assumes "\<And>x. x \<in> set t \<Longrightarrow> x \<noteq> 0x7B"
  shows "finditer L no_flags (brace_re 0x7B 0x7D) t = []"
  unfolding finditer_def
proof (rule finditer_from_no_match)
  fix q
  show "match_at L no_flags (brace_re 0x7B 0x7D) t q = None"
    by (rule match_at_first) (use assms in \<open>auto simp: brace_first\<close>)
qed

lemma math_magic_settled:
  assumes "\<And>x. x \<in> set t \<Longrightarrow> x \<noteq> 0x7B"
  shows "math_magic L t 0x7B 0x7D fn st = Some (Inr (t, st))"
  by (subst math_magic.simps) (simp add: no_brace_finditer [OF assms])

lemma recurse_while_settled:
  assumes "\<And>x. x \<in> set t \<Longrightarrow> x \<noteq> 0x7B"
  shows "recurse_while L fn t st = Some (Inr (t, st))"
  by (subst recurse_while.simps) (simp add: math_magic_settled [OF assms])

lemma recurse_while_groups:
  assumes fn: "returns_a fn" and mf: "0x100000 \<le> MAGIC_FIRST L" and ml: "MAGIC_FIRST L \<le> 0x110000"
    and n: "0 < n"
  shows "(MAGIC_FIRST L + int n \<le> 0x110000 \<longrightarrow>
           (\<exists>st'. recurse_while L fn (brace_groups n) \<lparr>magic_vec = [], stdout = out\<rparr> =
               Some (Inr (marks L 0 n, st')) \<and> magic_vec st' = replicate n [0x61])) \<and>
         (0x110000 < MAGIC_FIRST L + int n \<longrightarrow>
            recurse_while L fn (brace_groups n) \<lparr>magic_vec = [], stdout = out\<rparr> = Some (Inl ValueError))"
proof -
  let ?st = "\<lparr>magic_vec = [], stdout = out\<rparr>" and ?t = "brace_groups n"
  have mf0: "0 \<le> MAGIC_FIRST L" "MAGIC_FIRST L \<le> 0x110000" using mf ml by simp_all
  note P = pass_groups [OF fn mf0(1), of 0 n ?st, simplified]
  have ne: "marks L 0 n \<noteq> ?t"
  proof
    assume "marks L 0 n = ?t"
    then have "length (marks L 0 n) = length ?t" by simp
    then show False using n by simp
  qed
  have nb: "\<And>x. x \<in> set (marks L 0 n) \<Longrightarrow> x \<noteq> 0x7B" using marks_high [OF mf] by fastforce
  show ?thesis
  proof (intro conjI impI)
    assume "MAGIC_FIRST L + int n \<le> 0x110000"
    with P obtain st' where
      r: "re_sub_m (repl L fn ?t) ?t 0 (map brace_m [0..<n]) ?st = Some (Inr (marks L 0 n, st'))"
         "magic_vec st' = replicate n [0x61]" by auto
    have "math_magic L ?t 0x7B 0x7D fn ?st = Some (Inr (marks L 0 n, st'))"
      by (subst math_magic.simps) (simp add: brace_finditer_all r(1) ne math_magic_settled [OF nb])
    then have "recurse_while L fn ?t ?st = Some (Inr (marks L 0 n, st'))"
      by (subst recurse_while.simps) (simp add: ne recurse_while_settled [OF nb])
    then show "\<exists>st'. recurse_while L fn ?t ?st = Some (Inr (marks L 0 n, st')) \<and>
        magic_vec st' = replicate n [0x61]" using r(2) by blast
  next
    assume "0x110000 < MAGIC_FIRST L + int n"
    with P mf0 have "re_sub_m (repl L fn ?t) ?t 0 (map brace_m [0..<n]) ?st = Some (Inl ValueError)"
      by auto
    then have "math_magic L ?t 0x7B 0x7D fn ?st = Some (Inl ValueError)"
      by (subst math_magic.simps) (simp add: brace_finditer_all)
    then show "recurse_while L fn ?t ?st = Some (Inl ValueError)"
      by (subst recurse_while.simps) simp
  qed
qed

lemma matches_first:
  assumes "matches L (Seq (One (Chr c)) r) v"
  shows "v \<noteq> [] \<and> hd v = c"
proof -
  from assms obtain j d where "(j, d) \<in> set (paths L no_flags (Seq (One (Chr c)) r) v (0, []))"
    by (cases "paths L no_flags (Seq (One (Chr c)) r) v (0, [])")
      (auto simp: matches_def re_match_def match_at_def)
  then have "0 < length v" "v ! 0 = c" by (auto simp: mem_Seq mem_One atom_simps)
  then show ?thesis by (cases v) auto
qed

lemma expand_group_single:
  assumes x: "plain_char L x" and parts: "[] \<notin> set parts"
  shows "expand_group L parts [x] st =
     ret_bind (expand L (magic_vec st) [x]) (\<lambda>v. Some (Inr (v, st)))"
proof -
  have nb: "\<And>r. \<not> matches L (Seq (One (Chr bs)) r) [x]"
    using matches_first [of L bs _ "[x]"] x by (auto simp: plain_char_def)
  have lp: "parts \<noteq> [] \<Longrightarrow> last parts \<noteq> []" using parts last_in_set by metis
  have ns: "needs_space L parts [x] = Inr False"
    using lp by (cases "parts = []") (auto simp: needs_space_def)
  have tail: "expand_group_tail L parts None [x] st =
      ret_bind (expand L (magic_vec st) [x]) (\<lambda>v. Some (Inr (v, st)))"
    using x ns by (simp add: expand_group_tail_def plain_char_def startswith_def str_isspace_def
        u_def ret_bind_def Let_def)
  show ?thesis
    using nb x
    by (subst expand_group.simps)
      (simp add: seqs_def sqrt_index_re_def cmd_guard_def tail startswith_def u_def plain_char_def)
qed

lemma expand_plain:
  assumes "\<not> is_magic L x" and "\<not> isspace L x"
  shows "expand L mv [x] = Some (Inr [x])"
proof -
  have "magic_free L [x]" using assms(1) by (simp add: magic_free_def)
  then have "expand_while L mv [x] = Some (Inr [x])" by (rule expand_while_free)
  moreover have "strip L [x] = [x]" using assms(2) by (simp add: strip_def)
  ultimately show ?thesis by (simp add: expand_def ret_bind_def)
qed

lemma expand_mark:
  assumes L: "python_like L" and m: "is_magic L x" and i: "nat (x - MAGIC_FIRST L) < length mv"
    and a: "mv ! nat (x - MAGIC_FIRST L) = [0x61]"
  shows "expand L mv [x] = Some (Inr [0x61])"
proof -
  have f: "magic_free L [0x61]" using magic_small [OF L, of "0x61"] by (simp add: magic_free_def)
  have ne: "[0x61] \<noteq> [x]" using magic_small [OF L, of "0x61"] m by auto
  have "expand_while L mv [x] = expand_while L mv [0x61]"
    using m i a ne by (subst expand_while.simps) simp
  also have "\<dots> = Some (Inr [0x61])" by (rule expand_while_free [OF f])
  finally have "expand_while L mv [x] = Some (Inr [0x61])" .
  moreover have "strip L [0x61] = [0x61]" using L by (simp add: strip_def python_like_def)
  ultimately show ?thesis by (simp add: expand_def ret_bind_def)
qed

lemma token_at:
  assumes q: "q < length t" and x: "plain_char L (t ! q)"
    and nxt: "Suc q < length t \<Longrightarrow> \<not> isword L (t ! Suc q)"
  shows "match_at L no_flags token_re t q = Some (token_m q)"
  unfolding token_m_def
proof (rule match_at_unique)
  fix j c
  have x': "t ! q \<noteq> bs" "t ! q \<noteq> 0x5F" "t ! q \<noteq> 0x5E" "t ! q \<noteq> 0x0A" "\<not> isspace L (t ! q)"
    using x by (simp_all add: plain_char_def)
  have fin: "\<And>e. final_span L t q e \<longleftrightarrow> e = Suc q"
  proof
    fix e assume f: "final_span L t q e"
    then consider "q < e \<and> span_of L (In [CWord]) t q e" | "e = q + 1"
      using x' by (auto simp: final_span_def)
    then show "e = Suc q"
    proof cases
      case 1
      show ?thesis
      proof (rule ccontr)
        assume "e \<noteq> Suc q"
        then have "q \<le> Suc q \<and> Suc q < e" using 1 by simp
        then have "Suc q < length t \<and> atom_ok L no_flags (In [CWord]) (t ! Suc q)"
          using 1 unfolding span_of_def by blast
        then show False using nxt by (simp add: atom_simps)
      qed
    next
      case 2
      then show ?thesis by simp
    qed
  next
    fix e assume "e = Suc q"
    then show "final_span L t q e" using q x' by (simp add: final_span_def)
  qed
  show "(j, c) \<in> set (paths L no_flags token_re t (q, [])) \<longleftrightarrow> j = Suc q \<and> c = [(6, q, Suc q)]"
  proof
    assume "(j, c) \<in> set (paths L no_flags token_re t (q, []))"
    then consider "(j, c) \<in> set (paths L no_flags (Plus sp) t (q, []))"
      | "(j, c) \<in> set (paths L no_flags frac_call_re t (q, []))"
      | "(j, c) \<in> set (paths L no_flags command_re t (q, []))"
      by (auto simp: token_re_def alts_def mem_Alt)
    then show "j = Suc q \<and> c = [(6, q, Suc q)]"
    proof cases
      case 1
      then have "q < j" "span_of L sp t q j" by (simp_all add: mem_spans)
      then have "atom_ok L no_flags sp (t ! q)" unfolding span_of_def by blast
      then show ?thesis using x' by (simp add: atom_simps)
    next
      case 2
      then show ?thesis using x' by (auto simp: frac_call_iff frac_shape_def)
    next
      case 3
      then obtain k d k' d' where
        1: "(k, d) \<in> set (paths L no_flags (Opt (Group 3 prefix_re)) t (q, []))"
        and 2: "(k', d') \<in> set (paths L no_flags (Opt (One (In [CChr 0x5F, CChr 0x5E]))) t (k, d))"
        and 3: "(j, c) \<in> set (paths L no_flags (Group 6 final_re) t (k', d'))"
        by (auto simp: command_re_def seqs_def mem_Seq mem_Empty)
      have kd: "k = q \<and> d = []"
        using 1 prefix_shape [of _ _ L t q "[]"] x' by (auto simp: mem_Opt mem_Group)
      have kd': "k' = q \<and> d' = []"
        using 2 kd x' by (auto simp: mem_Opt mem_One)
      show ?thesis using 3 kd' fin by (auto simp: mem_Group final_iff)
    qed
  next
    assume a: "j = Suc q \<and> c = [(6, q, Suc q)]"
    have "(Suc q, [(6, q, Suc q)]) \<in> set (paths L no_flags command_re t (q, []))"
      using fin [of "Suc q"]
      by (auto simp: command_re_def seqs_def mem_Seq mem_Empty mem_Opt mem_Group final_iff
          intro!: exI [of _ q] exI [of _ "[]"])
    then show "(j, c) \<in> set (paths L no_flags token_re t (q, []))"
      using a by (simp add: token_re_def alts_def mem_Alt)
  qed
qed

lemma token_finditer:
  assumes "\<And>q. q < length t \<Longrightarrow>
      plain_char L (t ! q) \<and> (Suc q < length t \<longrightarrow> \<not> isword L (t ! Suc q))"
  shows "j \<le> length t \<Longrightarrow> finditer_from L no_flags token_re t j = map token_m [j..<length t]"
proof (induction "length t - j" arbitrary: j)
  case 0
  then have j: "j = length t" by simp
  have "\<not> nullable token_re"
    by (simp add: token_re_def alts_def command_re_def final_re_def frac_call_re_def seqs_def lits_def)
  then have "match_at L no_flags token_re t (length t) = None"
    by (rule match_at_first) simp
  moreover have "finditer_from L no_flags token_re t (Suc (length t)) = []"
    by (subst finditer_from.simps) simp
  ultimately show ?case using j by (subst finditer_from.simps) (simp del: finditer_from.simps)
next
  case (Suc d)
  then have jn: "j < length t" and d: "d = length t - Suc j" and le: "Suc j \<le> length t" by simp_all
  have m: "match_at L no_flags token_re t j = Some (token_m j)"
    by (rule token_at [OF jn]) (use assms jn in auto)
  have "finditer_from L no_flags token_re t j = token_m j # finditer_from L no_flags token_re t (Suc j)"
    using jn by (subst finditer_from.simps) (simp add: m token_m_def del: finditer_from.simps)
  also have "\<dots> = token_m j # map token_m [Suc j..<length t]" using Suc.hyps(1) [OF d le] by simp
  also have "\<dots> = map token_m [j..<length t]" using jn by (simp add: upt_conv_Cons)
  finally show ?case .
qed

lemma marks_nth: "j < n \<Longrightarrow> marks L k n ! j = MAGIC_FIRST L + int (k + j)"
  by (simp add: marks_def)

lemma high_plain:
  assumes "high_inert L" and "0x100000 \<le> x"
  shows "plain_char L x \<and> \<not> isword L x"
  using assms by (auto simp: high_inert_def plain_char_def isword_def bs_def)

lemma for_tokens_marks:
  assumes L: "python_like L" and H: "high_inert L" and mv: "magic_vec st = replicate n [0x61]"
  shows "j \<le> n \<Longrightarrow> [] \<notin> set parts \<Longrightarrow>
     for_tokens L (marks L 0 n) (map token_m [j..<n]) parts st =
       Some (Inr (parts @ map (shown L) [j..<n], st))"
proof (induction "n - j" arbitrary: j parts)
  case 0
  then show ?case by simp
next
  case (Suc d)
  let ?t = "marks L 0 n" and ?x = "MAGIC_FIRST L + int j"
  from Suc have jn: "j < n" and d: "d = n - Suc j" and le: "Suc j \<le> n" by simp_all
  have up: "[j..<n] = j # [Suc j..<n]" using jn by (simp add: upt_conv_Cons)
  have mf: "0x100000 \<le> MAGIC_FIRST L" using L by (simp add: python_like_def)
  have g: "group0 ?t (token_m j) = [?x]"
    using jn slice_one [of j ?t] by (simp add: group0_def token_m_def marks_nth)
  have hx: "0x100000 \<le> ?x" using mf by simp
  have px: "plain_char L ?x" "\<not> isspace L ?x"
    using high_plain [OF H hx] H hx by (auto simp: high_inert_def)
  have e: "expand L (magic_vec st) [?x] = Some (Inr (shown L j))"
  proof (cases "?x \<le> MAGIC_LAST L")
    case True
    then have m: "is_magic L ?x" by (simp add: is_magic_def)
    have "expand L (magic_vec st) [?x] = Some (Inr [0x61])"
      by (rule expand_mark [OF L m]) (use jn mv in simp_all)
    then show ?thesis using True by (simp add: shown_def)
  next
    case False
    then have m: "\<not> is_magic L ?x" by (simp add: is_magic_def)
    show ?thesis using expand_plain [OF m px(2)] False by (simp add: shown_def)
  qed
  have ne: "shown L j \<noteq> []" by (simp add: shown_def)
  have "for_tokens L ?t (map token_m [j..<n]) parts st =
      for_tokens L ?t (map token_m [Suc j..<n]) (parts @ [shown L j]) st"
    unfolding up using expand_group_single [OF px(1) Suc.prems(2), of st] g e ne
    by (simp add: ret_bind_def)
  also have "\<dots> = Some (Inr ((parts @ [shown L j]) @ map (shown L) [Suc j..<n], st))"
    by (rule Suc.hyps(1) [OF d le]) (use Suc.prems(2) ne in auto)
  finally show ?case unfolding up by simp
qed

lemma token_finditer_all:
  assumes "\<And>q. q < length t \<Longrightarrow>
      plain_char L (t ! q) \<and> (Suc q < length t \<longrightarrow> \<not> isword L (t ! Suc q))"
  shows "finditer L no_flags token_re t = map token_m [0..<length t]"
  using token_finditer [OF assms, of 0] by (simp add: finditer_def)

lemma recurse_a:
  assumes L: "python_like L"
  shows "returns_a (recurse L (Suc f))"
  unfolding returns_a_def
proof
  fix st
  let ?st = "print (Log_BEFORE_ITER [0x61]) st"
  have sp: "\<not> isspace L 0x61" using L by (simp add: python_like_def)
  have pc: "plain_char L 0x61" using sp by (simp add: plain_char_def bs_def)
  have w: "recurse_while L (\<lambda>t s. recurse L f t s) [0x61] st = Some (Inr ([0x61], st))"
    by (rule recurse_while_settled) simp
  have fi: "finditer L no_flags token_re [0x61] = [token_m 0]"
    using token_finditer_all [of "[0x61]" L] pc by simp
  have m: "\<not> is_magic L 0x61" using magic_small [OF L, of "0x61"] by simp
  have g: "group0 [0x61] (token_m 0) = [0x61]" by (simp add: group0_def token_m_def slice_def)
  have "expand_group L [] [0x61] ?st = Some (Inr ([0x61], ?st))"
    using expand_group_single [OF pc, of "[]" ?st] expand_plain [OF m sp] by (simp add: ret_bind_def)
  then have ft: "for_tokens L [0x61] [token_m 0] [] ?st = Some (Inr ([[0x61]], ?st))"
    using g by (simp add: ret_bind_def)
  have "recurse L (Suc f) [0x61] st = Some (Inr ([0x61], ?st))"
    by (simp add: w fi ft ret_bind_def del: for_tokens.simps)
  then show "\<exists>st'. recurse L (Suc f) [0x61] st = Some (Inr ([0x61], st')) \<and> magic_vec st' = magic_vec st"
    by (intro exI [of _ ?st]) simp
qed

lemma to_math_groups:
  assumes L: "python_like L" and H: "high_inert L" and ml: "MAGIC_FIRST L \<le> 0x110000" and n: "0 < n"
  shows "(MAGIC_FIRST L + int n \<le> 0x110000 \<longrightarrow>
            to_math L (brace_groups n) = Some (Inr (concat (map (shown L) [0..<n])))) \<and>
         (0x110000 < MAGIC_FIRST L + int n \<longrightarrow> to_math L (brace_groups n) = Some (Inl ValueError))"
proof -
  let ?t = "brace_groups n"
  let ?st = "print (Log_to_math ?t) \<lparr>magic_vec = [], stdout = []\<rparr>"
  have st: "?st = \<lparr>magic_vec = [], stdout = [Log_to_math ?t]\<rparr>" by (simp add: print_def)
  have mf: "0x100000 \<le> MAGIC_FIRST L" using L by (simp add: python_like_def)
  obtain f where f: "3 * n = Suc f" using n by (cases "3 * n") auto
  have fn: "returns_a (recurse L (3 * n))" unfolding f by (rule recurse_a [OF L])
  note W = recurse_while_groups [OF fn mf ml n, of "[Log_to_math ?t]", folded st]
  show ?thesis
  proof (intro conjI impI)
    assume "MAGIC_FIRST L + int n \<le> 0x110000"
    with W obtain st' where
      w: "recurse_while L (recurse L (3 * n)) ?t ?st = Some (Inr (marks L 0 n, st'))"
         "magic_vec st' = replicate n [0x61]" by blast
    let ?st1 = "print (Log_BEFORE_ITER (marks L 0 n)) st'"
    have h: "\<And>q. q < length (marks L 0 n) \<Longrightarrow> plain_char L (marks L 0 n ! q) \<and>
        (Suc q < length (marks L 0 n) \<longrightarrow> \<not> isword L (marks L 0 n ! Suc q))"
      using high_plain [OF H] mf by (simp add: marks_nth)
    have fi: "finditer L no_flags token_re (marks L 0 n) = map token_m [0..<n]"
      using token_finditer_all [OF h] by simp
    have ft: "for_tokens L (marks L 0 n) (map token_m [0..<n]) [] ?st1 =
        Some (Inr ([] @ map (shown L) [0..<n], ?st1))"
      by (rule for_tokens_marks [OF L H]) (use w(2) in \<open>simp_all add: print_def\<close>)
    have r: "recurse L (Suc (3 * n)) ?t ?st = Some (Inr (concat (map (shown L) [0..<n]), ?st1))"
      by (simp add: w(1) fi ft ret_bind_def del: for_tokens.simps)
    show "to_math L ?t = Some (Inr (concat (map (shown L) [0..<n])))"
      by (simp add: to_math_def to_math_run_def r ret_bind_def del: recurse.simps)
  next
    assume "0x110000 < MAGIC_FIRST L + int n"
    with W have w: "recurse_while L (recurse L (3 * n)) ?t ?st = Some (Inl ValueError)"
      by blast
    have r: "recurse L (Suc (3 * n)) ?t ?st = Some (Inl ValueError)"
      by (simp add: w ret_bind_def)
    show "to_math L ?t = Some (Inl ValueError)"
      by (simp add: to_math_def to_math_run_def r ret_bind_def del: recurse.simps)
  qed
qed

lemma shown_in_range:
  "MAGIC_FIRST L + int k \<le> MAGIC_LAST L + 1 \<Longrightarrow> concat (map (shown L) [0..<k]) = replicate k 0x61"
proof (induction k)
  case 0
  show ?case by simp
next
  case (Suc k)
  then have "concat (map (shown L) [0..<k]) = replicate k 0x61" by simp
  moreover have "shown L k = [0x61]" using Suc.prems by (simp add: shown_def)
  ultimately show ?case by (simp add: replicate_append_same)
qed

lemma shown_leak:
  assumes "MAGIC_FIRST L + int k = MAGIC_LAST L + 1"
  shows "concat (map (shown L) [0..<Suc k]) = replicate k 0x61 @ [MAGIC_LAST L + 1]"
proof -
  have "concat (map (shown L) [0..<k]) = replicate k 0x61"
    by (rule shown_in_range) (use assms in simp)
  moreover have "shown L k = [MAGIC_LAST L + 1]" using assms by (simp add: shown_def)
  ultimately show ?thesis by simp
qed

lemma high_inert_cpython: "high_inert cpython"
  by (auto simp: high_inert_def cpython_def in_ranges_def)

lemma u_group: "u ''{a}'' = [0x7B, 0x61, 0x7D]"
  by (simp add: u_def)

text \<open>
  C10. Every placeholder allocated into the placeholder vector is expanded back before
  \<^verbatim>\<open>to_math\<close> returns. The range from \<^verbatim>\<open>MAGIC_FIRST\<close> = U+10203E to \<^verbatim>\<open>MAGIC_LAST\<close> =
  U+10FFF0 holds 57267 code points, and \<^verbatim>\<open>expand\<close> (line 604) replaces these only, while
  line 619 goes on allocating beyond them. On the text of 57268 groups \<^verbatim>\<open>{a}\<close>, which
  holds the three characters of a group and nothing else, the last group gets the
  placeholder U+10FFF1: \<^verbatim>\<open>to_math\<close> returns 57267 times \<^verbatim>\<open>a\<close> and then this placeholder,
  not expanded. Three groups come out as \<^verbatim>\<open>aaa\<close>.
\<close>

theorem to_math_leaks_placeholder:
  "set (concat (replicate 57268 (u ''{a}''))) = {0x7B, 0x61, 0x7D} \<and>
   MAGIC_FIRST cpython + 57267 = 0x10FFF1 \<and> MAGIC_LAST cpython = 0x10FFF0 \<and>
   to_math cpython (concat (replicate 3 (u ''{a}''))) = Some (Inr (u ''aaa'')) \<and>
   to_math cpython (concat (replicate 57268 (u ''{a}''))) =
     Some (Inr (replicate 57267 0x61 @ [0x10FFF1]))"
proof -
  have i: "set (concat (replicate 57268 (u ''{a}''))) = {0x7B, 0x61, 0x7D}"
    unfolding u_group by simp
  have f: "MAGIC_FIRST cpython + 57267 = 0x10FFF1" "MAGIC_LAST cpython = 0x10FFF0"
    by (simp_all add: cpython_def)
  have e: "to_math cpython (concat (replicate 3 (u ''{a}''))) = Some (Inr (u ''aaa''))"
    by code_simp
  have k: "MAGIC_FIRST cpython + int 57267 = MAGIC_LAST cpython + 1" by (simp add: cpython_def)
  have s: "Suc 57267 = 57268" by simp
  have ml: "MAGIC_LAST cpython + 1 = 0x10FFF1" by (simp add: cpython_def)
  have "to_math cpython (brace_groups (Suc 57267)) =
      Some (Inr (concat (map (shown cpython) [0..<Suc 57267])))"
    using to_math_groups [OF python_like_cpython high_inert_cpython, of "Suc 57267"]
    by (simp add: cpython_def del: upt_Suc)
  then have "to_math cpython (brace_groups (Suc 57267)) =
      Some (Inr (replicate 57267 0x61 @ [0x10FFF1]))"
    unfolding shown_leak [OF k] ml .
  then have r: "to_math cpython (concat (replicate 57268 (u ''{a}''))) =
      Some (Inr (replicate 57267 0x61 @ [0x10FFF1]))"
    unfolding s brace_groups_def u_group .
  show ?thesis by (intro conjI i f e r)
qed

text \<open>
  C5. The entry points return a string on every string and never raise. On the text of
  57283 groups \<^verbatim>\<open>{a}\<close>, which holds the three characters of a group and nothing else,
  the last group is to get the placeholder number 57282, and \<^verbatim>\<open>MAGIC_FIRST\<close> + 57282 is
  \<^verbatim>\<open>0x110000\<close>: \<^verbatim>\<open>chr\<close> raises ValueError on line 619, nothing catches it, and \<^verbatim>\<open>to_math\<close>
  raises it. Three groups come out as \<^verbatim>\<open>aaa\<close>.
\<close>

theorem to_math_raises_value_error:
  "set (concat (replicate 57283 (u ''{a}''))) = {0x7B, 0x61, 0x7D} \<and>
   MAGIC_FIRST cpython + 57282 = 0x110000 \<and>
   to_math cpython (concat (replicate 3 (u ''{a}''))) = Some (Inr (u ''aaa'')) \<and>
   to_math cpython (concat (replicate 57283 (u ''{a}''))) = Some (Inl ValueError)"
proof -
  have i: "set (concat (replicate 57283 (u ''{a}''))) = {0x7B, 0x61, 0x7D}"
    unfolding u_group by simp
  have f: "MAGIC_FIRST cpython + 57282 = 0x110000" by (simp add: cpython_def)
  have e: "to_math cpython (concat (replicate 3 (u ''{a}''))) = Some (Inr (u ''aaa''))"
    by code_simp
  have "to_math cpython (brace_groups 57283) = Some (Inl ValueError)"
    using to_math_groups [OF python_like_cpython high_inert_cpython, of 57283]
    by (simp add: cpython_def)
  then have r: "to_math cpython (concat (replicate 57283 (u ''{a}''))) = Some (Inl ValueError)"
    unfolding brace_groups_def u_group .
  show ?thesis by (intro conjI i f e r)
qed

end
